theory Spec2Isabelle
  imports Main "HOL-Library.Sublist"
begin

section \<open>JavaScript strings\<close>

text \<open>
  The parser works on JavaScript strings, sequences of UTF-16 code units. The model writes a
  string as a \<^typ>\<open>char list\<close>: one \<^typ>\<open>char\<close> is one code unit in the range 0..255 (Latin-1),
  and the character classes below are the ECMAScript ones restricted to that range. Within
  the range, matching with the \<open>u\<close> flag and without it agree, and no character outside ASCII
  case-folds to an ASCII letter.
\<close>

definition isWhiteSpace :: "char \<Rightarrow> bool" where
  \<comment> \<open>\<open>\s\<close> of a regular expression, and what \<open>trim\<close> strips: TAB, LF, VT, FF, CR, SP, NBSP.\<close>
  "isWhiteSpace c = (c = CHR 0x20 \<or> c = CHR 0x0A \<or> c = CHR 0x09 \<or> c = CHR 0x0D
     \<or> c = CHR 0x0B \<or> c = CHR 0x0C \<or> c = CHR 0xA0)"

definition isLineTerminator :: "char \<Rightarrow> bool" where
  \<comment> \<open>what \<open>.\<close> does not match without the \<open>s\<close> flag\<close>
  "isLineTerminator c = (c = CHR 0x0A \<or> c = CHR 0x0D)"

definition unicodeLetter :: "char \<Rightarrow> bool" where
  \<comment> \<open>\<open>\p{L}\<close>: A-Z, a-z, and the letters of Latin-1\<close>
  "unicodeLetter c = (let n = (of_char c :: nat) in
     (65 \<le> n \<and> n \<le> 90) \<or> (97 \<le> n \<and> n \<le> 122) \<or> n = 170 \<or> n = 181 \<or> n = 186
     \<or> (192 \<le> n \<and> n \<le> 214) \<or> (216 \<le> n \<and> n \<le> 246) \<or> (248 \<le> n \<and> n \<le> 255))"

definition unicodeNumber :: "char \<Rightarrow> bool" where
  \<comment> \<open>\<open>\p{N}\<close>: 0-9, superscripts and vulgar fractions of Latin-1\<close>
  "unicodeNumber c = (let n = (of_char c :: nat) in
     (48 \<le> n \<and> n \<le> 57) \<or> n = 178 \<or> n = 179 \<or> n = 185 \<or> (188 \<le> n \<and> n \<le> 190))"

definition canonicalize :: "char \<Rightarrow> char" where
  \<comment> \<open>case folding of the \<open>i\<close> flag: A-Z and the capitals of Latin-1 go to their small letters\<close>
  "canonicalize c = (let n = (of_char c :: nat) in
     if (65 \<le> n \<and> n \<le> 90) \<or> (192 \<le> n \<and> n \<le> 222 \<and> n \<noteq> 215) then char_of (n + 32) else c)"


text \<open>
  The same classes read off the eight bits of a character: these equations are what the
  simplifier evaluates on a concrete character.
\<close>

lemma isWhiteSpace_Char:
  "isWhiteSpace (Char b0 b1 b2 b3 b4 b5 b6 b7) =
     (\<not> b6 \<and> \<not> b4 \<and>
       (if b5 then \<not> b3 \<and> \<not> b2 \<and> \<not> b1 \<and> \<not> b0
        else \<not> b7 \<and> b3 \<and> ((\<not> b2 \<and> (b1 \<or> b0)) \<or> (b2 \<and> \<not> b1))))"
  by (cases b0; cases b1; cases b2; cases b3; cases b4; cases b5; cases b6; cases b7;
      simp add: isWhiteSpace_def)

lemma unicodeLetter_Char:
  "unicodeLetter (Char b0 b1 b2 b3 b4 b5 b6 b7) =
     (if b7 then (if b6 then \<not> (b0 \<and> b1 \<and> b2 \<and> \<not> b3 \<and> b4)
                  else b5 \<and> ((\<not> b4 \<and> b3 \<and> \<not> b2 \<and> b1 \<and> \<not> b0) \<or> (b4 \<and> \<not> b3 \<and> b2 \<and> \<not> b1 \<and> b0)
                         \<or> (b4 \<and> b3 \<and> \<not> b2 \<and> b1 \<and> \<not> b0)))
      else b6 \<and> (b0 \<or> b1 \<or> b2 \<or> b3 \<or> b4) \<and> \<not> (b4 \<and> b3 \<and> (b2 \<or> (b1 \<and> b0))))"
  by (cases b0; cases b1; cases b2; cases b3; cases b4; cases b5; cases b6; cases b7;
      simp add: unicodeLetter_def)

lemma unicodeNumber_Char:
  "unicodeNumber (Char b0 b1 b2 b3 b4 b5 b6 b7) =
     (if b7 then \<not> b6 \<and> b5 \<and> b4 \<and> ((\<not> b3 \<and> \<not> b2 \<and> b1) \<or> (b3 \<and> \<not> b2 \<and> \<not> b1 \<and> b0)
                                  \<or> (b3 \<and> b2 \<and> \<not> (b1 \<and> b0)))
      else \<not> b6 \<and> b5 \<and> b4 \<and> \<not> (b3 \<and> (b2 \<or> b1)))"
  by (cases b0; cases b1; cases b2; cases b3; cases b4; cases b5; cases b6; cases b7;
      simp add: unicodeNumber_def)

lemma canonicalize_Char:
  "canonicalize (Char b0 b1 b2 b3 b4 b5 b6 b7) =
     (if b6 \<and> \<not> b5 \<and> (if b7 then \<not> (b0 \<and> b1 \<and> b2 \<and> b4)
                          else (b0 \<or> b1 \<or> b2 \<or> b3 \<or> b4) \<and> \<not> (b4 \<and> b3 \<and> (b2 \<or> (b1 \<and> b0))))
      then Char b0 b1 b2 b3 b4 True b6 b7 else Char b0 b1 b2 b3 b4 b5 b6 b7)"
  by (cases b0; cases b1; cases b2; cases b3; cases b4; cases b5; cases b6; cases b7;
      simp add: canonicalize_def char_of_eq_iff)

fun trimStart :: "string \<Rightarrow> string" where
  "trimStart s = dropWhile isWhiteSpace s"

fun trimEnd :: "string \<Rightarrow> string" where
  "trimEnd s = rev (dropWhile isWhiteSpace (rev s))"

fun trim :: "string \<Rightarrow> string" where
  "trim s = trimEnd (trimStart s)"

fun indexOf :: "string \<Rightarrow> string \<Rightarrow> nat option" where
  \<comment> \<open>\<open>s.indexOf(t)\<close>: the first position where \<open>t\<close> occurs in \<open>s\<close>; \<open>None\<close> is \<open>-1\<close>\<close>
  "indexOf t [] = (if t = [] then Some 0 else None)"
| "indexOf t (x # xs) = (if prefix t (x # xs) then Some 0 else map_option Suc (indexOf t xs))"

section \<open>Regular expressions\<close>

text \<open>
  The patterns of the parser are regular expression literals. They are written here as terms
  of a syntax tree and run by a backtracking matcher that lists, in the order a JavaScript
  engine tries them, the states in which a pattern can end. The first state of the list is the
  match the engine reports.
\<close>

datatype citem = Ch char | Rng char char | ClsS | ClsL | ClsN

datatype regex = Lit string | Set "citem list" | NSet "citem list" | Dot
  | Cat "regex list" | Alt regex regex | Opt regex | Star regex
  | Grp nat regex | Ahead regex | Bol | Eol

definition Plus :: "regex \<Rightarrow> regex" where
  "Plus r = Cat [r, Star r]"

record flags =
  ignoreCase :: bool
  dotAll :: bool

text \<open>A matcher state: the position in the input, the input from there on, the captures.\<close>

type_synonym mstate = "nat \<times> string \<times> (nat \<times> string) list"

fun item_match :: "bool \<Rightarrow> char \<Rightarrow> citem \<Rightarrow> bool" where
  "item_match ic x (Ch c) = (if ic then canonicalize x = canonicalize c else x = c)"
| "item_match ic x (Rng a b) =
     (if (of_char a :: nat) \<le> of_char x \<and> (of_char x :: nat) \<le> of_char b then True
      else if ic then (\<exists>m \<in> {(of_char a :: nat) .. of_char b}. canonicalize (char_of m) = canonicalize x)
      else False)"
| "item_match ic x ClsS = isWhiteSpace x"
| "item_match ic x ClsL = unicodeLetter x"
| "item_match ic x ClsN = unicodeNumber x"

fun match_lit :: "bool \<Rightarrow> string \<Rightarrow> string \<Rightarrow> string option" where
  "match_lit ic [] s = Some s"
| "match_lit ic (c # cs) [] = None"
| "match_lit ic (c # cs) (x # xs) =
     (if (if ic then canonicalize x = canonicalize c else x = c) then match_lit ic cs xs else None)"

fun ms :: "flags \<Rightarrow> regex \<Rightarrow> mstate \<Rightarrow> mstate list" where
  "ms fl (Lit cs) (p, s, caps) =
     (case match_lit (ignoreCase fl) cs s of None \<Rightarrow> [] | Some s' \<Rightarrow> [(p + length cs, s', caps)])"
| "ms fl (Set its) (p, s, caps) =
     (case s of [] \<Rightarrow> []
      | x # xs \<Rightarrow> if list_ex (item_match (ignoreCase fl) x) its then [(Suc p, xs, caps)] else [])"
| "ms fl (NSet its) (p, s, caps) =
     (case s of [] \<Rightarrow> []
      | x # xs \<Rightarrow> if list_ex (item_match (ignoreCase fl) x) its then [] else [(Suc p, xs, caps)])"
| "ms fl Dot (p, s, caps) =
     (case s of [] \<Rightarrow> []
      | x # xs \<Rightarrow> if dotAll fl \<or> \<not> isLineTerminator x then [(Suc p, xs, caps)] else [])"
| "ms fl (Cat []) st = [st]"
| "ms fl (Cat (r # rs)) st = concat (map (ms fl (Cat rs)) (ms fl r st))"
| "ms fl (Alt a b) st = ms fl a st @ ms fl b st"
| "ms fl (Opt r) st =
     filter (\<lambda>st'. length (fst (snd st')) < length (fst (snd st))) (ms fl r st) @ [st]"
| "ms fl (Star r) st =
     concat (map (\<lambda>st'. if length (fst (snd st')) < length (fst (snd st))
                          then ms fl (Star r) st' else [])
                 (ms fl r st)) @ [st]"
| "ms fl (Grp n r) (p, s, caps) =
     map (\<lambda>(p', s', caps'). (p', s', (n, take (p' - p) s) # caps')) (ms fl r (p, s, caps))"
| "ms fl (Ahead r) (p, s, caps) =
     (case ms fl r (p, s, caps) of [] \<Rightarrow> [] | (p', s', caps') # _ \<Rightarrow> [(p, s, caps')])"
| "ms fl Bol (p, s, caps) = (if p = 0 then [(p, s, caps)] else [])"
| "ms fl Eol (p, s, caps) = (if s = [] then [(p, s, caps)] else [])"

text \<open>The result of \<open>RegExp.prototype.exec\<close>: \<open>match.index\<close>, \<open>match[0]\<close> and the groups.\<close>

record rmatch =
  index :: nat
  matched :: string
  groups :: "(nat \<times> string) list"

fun exec_from :: "flags \<Rightarrow> regex \<Rightarrow> nat \<Rightarrow> string \<Rightarrow> rmatch option" where
  "exec_from fl r p [] =
     (case ms fl r (p, [], []) of [] \<Rightarrow> None
      | (p', s', caps) # _ \<Rightarrow> Some \<lparr>index = p, matched = [], groups = caps\<rparr>)"
| "exec_from fl r p (x # xs) =
     (case ms fl r (p, x # xs, []) of [] \<Rightarrow> exec_from fl r (Suc p) xs
      | (p', s', caps) # _ \<Rightarrow>
          Some \<lparr>index = p, matched = take (p' - p) (x # xs), groups = caps\<rparr>)"

definition exec :: "flags \<Rightarrow> regex \<Rightarrow> string \<Rightarrow> rmatch option" where
  "exec fl r s = exec_from fl r 0 s"

definition grp :: "rmatch \<Rightarrow> nat \<Rightarrow> string option" where
  \<comment> \<open>\<open>match[n]\<close>; \<open>None\<close> is \<open>undefined\<close>, a group that took no part in the match\<close>
  "grp m n = map_of (groups m) n"

definition noflags :: flags where
  "noflags = \<lparr>ignoreCase = False, dotAll = False\<rparr>"

subsection \<open>What a match consumes\<close>

lemma match_lit_drop:
  "match_lit ic cs s = Some s' \<Longrightarrow> length cs \<le> length s \<and> s' = drop (length cs) s"
  by (induction ic cs s rule: match_lit.induct) (auto split: if_splits)

definition advances :: "mstate \<Rightarrow> mstate \<Rightarrow> bool" where
  "advances st st' = (\<exists>k. k \<le> length (fst (snd st)) \<and> fst st' = fst st + k
      \<and> fst (snd st') = drop k (fst (snd st)))"

lemma advances_refl: "advances st st"
  unfolding advances_def by (rule exI[of _ 0]) simp

lemma advances_trans: "advances a b \<Longrightarrow> advances b c \<Longrightarrow> advances a c"
proof -
  assume "advances a b" "advances b c"
  then obtain k l where k: "k \<le> length (fst (snd a))" "fst b = fst a + k"
      "fst (snd b) = drop k (fst (snd a))"
    and l: "l \<le> length (fst (snd b))" "fst c = fst b + l" "fst (snd c) = drop l (fst (snd b))"
    unfolding advances_def by blast
  have "k + l \<le> length (fst (snd a))" using k l by simp
  moreover have "fst c = fst a + (k + l)" using k l by simp
  moreover have "fst (snd c) = drop (k + l) (fst (snd a))" using k l by (simp add: add.commute)
  ultimately show ?thesis unfolding advances_def by blast
qed

lemmas ms_Star = ms.simps(9)
declare ms.simps(9) [simp del]

lemma ms_advances: "st' \<in> set (ms fl r st) \<Longrightarrow> advances st st'"
proof (induction fl r st arbitrary: st' rule: ms.induct)
  case (1 fl cs p s caps)
  then show ?case
    by (auto simp: advances_def split: option.splits dest!: match_lit_drop match_lit_drop[OF sym])
next
  case (2 fl its p s caps)
  then show ?case
    by (auto simp: advances_def split: list.splits if_splits intro: exI[of _ 1])
next
  case (3 fl its p s caps)
  then show ?case
    by (auto simp: advances_def split: list.splits if_splits intro: exI[of _ 1])
next
  case (4 fl p s caps)
  then show ?case
    by (auto simp: advances_def split: list.splits if_splits intro: exI[of _ 1])
next
  case (5 fl st)
  then show ?case by (simp add: advances_refl)
next
  case (6 fl r rs st)
  from "6.prems" obtain st1 where st1: "st1 \<in> set (ms fl r st)" "st' \<in> set (ms fl (Cat rs) st1)"
    by auto
  then show ?case
    using "6.IH" advances_trans by blast
next
  case (7 fl a b st)
  from "7.prems" have "st' \<in> set (ms fl a st) \<or> st' \<in> set (ms fl b st)"
    by simp
  then show ?case
    using "7.IH" by blast
next
  case (8 fl r st)
  from "8.prems" have "st' \<in> set (ms fl r st) \<or> st' = st"
    by auto
  then show ?case
    using "8.IH" advances_refl by blast
next
  case (9 fl r st)
  show ?case
  proof (cases "st' = st")
    case True
    then show ?thesis by (simp add: advances_refl)
  next
    case False
    from "9.prems" have "st' \<in> set (concat (map (\<lambda>st'. if length (fst (snd st')) < length (fst (snd st))
                          then ms fl (Star r) st' else []) (ms fl r st)) @ [st])"
      by (subst (asm) ms_Star)
    with False obtain st1 where st1: "st1 \<in> set (ms fl r st)"
        "length (fst (snd st1)) < length (fst (snd st))" "st' \<in> set (ms fl (Star r) st1)"
      by (auto split: if_splits)
    then show ?thesis
      using "9.IH"(1)[OF st1(1)] "9.IH"(2)[OF st1(1) st1(2) st1(3)] advances_trans by blast
  qed
next
  case (10 fl n r p s caps)
  from "10.prems" obtain p' s' caps' where
      a: "(p', s', caps') \<in> set (ms fl r (p, s, caps))" and b: "st' = (p', s', (n, take (p' - p) s) # caps')"
    by auto
  from "10.IH"[OF a] show ?case
    by (simp add: advances_def b)
next
  case (11 fl r p s caps)
  then have "fst st' = p \<and> fst (snd st') = s"
    by (auto split: list.splits)
  then show ?case
    unfolding advances_def by (intro exI[of _ 0]) simp
next
  case (12 fl p s caps)
  then show ?case by (auto simp: advances_refl split: if_splits)
next
  case (13 fl p s caps)
  then show ?case by (auto simp: advances_refl split: if_splits)
qed


lemma exec_from_span:
  "exec_from fl r p s = Some m \<Longrightarrow>
     \<exists>i k. index m = p + i \<and> i + k \<le> length s \<and> matched m = take k (drop i s)"
proof (induction fl r p s rule: exec_from.induct)
  case (1 fl r p)
  then show ?case by (auto split: list.splits)
next
  case (2 fl r p x xs)
  show ?case
  proof (cases "ms fl r (p, x # xs, [])")
    case Nil
    with 2 obtain i k where "index m = Suc p + i" "i + k \<le> length xs" "matched m = take k (drop i xs)"
      by auto
    then show ?thesis
      by (intro exI[of _ "Suc i"] exI[of _ k]) simp
  next
    case (Cons st sts)
    obtain p' s' caps where st: "st = (p', s', caps)" by (cases st)
    have "advances (p, x # xs, []) st" using Cons by (intro ms_advances[of _ fl r]) simp
    then obtain k where k: "k \<le> length (x # xs)" "p' = p + k"
      by (auto simp: advances_def st)
    from 2(2) Cons st have m: "m = \<lparr>index = p, matched = take (p' - p) (x # xs), groups = caps\<rparr>"
      by simp
    show ?thesis
      using k by (intro exI[of _ 0] exI[of _ k]) (simp add: m)
  qed
qed

lemma exec_span:
  "exec fl r s = Some m \<Longrightarrow>
     index m + length (matched m) \<le> length s
     \<and> matched m = take (length (matched m)) (drop (index m) s)"
  unfolding exec_def by (drule exec_from_span) auto

lemma exec_from_Bol_pos: "0 < p \<Longrightarrow> exec_from fl (Cat (Bol # rs)) p s = None"
  by (induction s arbitrary: p) auto

lemma exec_Bol_index: "exec fl (Cat (Bol # rs)) s = Some m \<Longrightarrow> index m = 0"
  unfolding exec_def by (cases s) (auto split: list.splits simp: exec_from_Bol_pos)

lemma exec_Bol_prefix:
  assumes "exec fl (Cat (Bol # rs)) s = Some m"
  shows "matched m = take (length (matched m)) s" "length (matched m) \<le> length s"
  using exec_span[OF assms] exec_Bol_index[OF assms] by auto

subsection \<open>What a match means\<close>

text \<open>
  The meaning of a pattern, said without the matcher: \<open>den fl r p w after caps caps'\<close> holds
  when the pattern \<open>r\<close> can match the text \<open>w\<close> that starts at position \<open>p\<close> of the input and is
  followed by \<open>after\<close>, turning the captures \<open>caps\<close> into \<open>caps'\<close>. Every state the matcher
  lists stands for such a match, and so does the match \<open>exec\<close> reports.
\<close>

definition char_eq :: "flags \<Rightarrow> char \<Rightarrow> char \<Rightarrow> bool" where
  "char_eq fl x c = (if ignoreCase fl then canonicalize x = canonicalize c else x = c)"

inductive den :: "flags \<Rightarrow> regex \<Rightarrow> nat \<Rightarrow> string \<Rightarrow> string
    \<Rightarrow> (nat \<times> string) list \<Rightarrow> (nat \<times> string) list \<Rightarrow> bool"
  for fl :: flags where
  den_Lit: "list_all2 (char_eq fl) w l \<Longrightarrow> den fl (Lit l) p w after caps caps"
| den_Set: "list_ex (item_match (ignoreCase fl) x) its \<Longrightarrow> den fl (Set its) p [x] after caps caps"
| den_NSet: "\<not> list_ex (item_match (ignoreCase fl) x) its \<Longrightarrow> den fl (NSet its) p [x] after caps caps"
| den_Dot: "dotAll fl \<or> \<not> isLineTerminator x \<Longrightarrow> den fl Dot p [x] after caps caps"
| den_Cat_Nil: "den fl (Cat []) p [] after caps caps"
| den_Cat_Cons: "den fl r p u (v @ after) caps caps1 \<Longrightarrow> den fl (Cat rs) (p + length u) v after caps1 caps2
     \<Longrightarrow> den fl (Cat (r # rs)) p (u @ v) after caps caps2"
| den_Alt1: "den fl a p w after caps caps' \<Longrightarrow> den fl (Alt a b) p w after caps caps'"
| den_Alt2: "den fl b p w after caps caps' \<Longrightarrow> den fl (Alt a b) p w after caps caps'"
| den_Opt_None: "den fl (Opt r) p [] after caps caps"
| den_Opt_Some: "den fl r p w after caps caps' \<Longrightarrow> w \<noteq> [] \<Longrightarrow> den fl (Opt r) p w after caps caps'"
| den_Star_Nil: "den fl (Star r) p [] after caps caps"
| den_Star_Step: "den fl r p u (v @ after) caps caps1 \<Longrightarrow> u \<noteq> []
     \<Longrightarrow> den fl (Star r) (p + length u) v after caps1 caps2
     \<Longrightarrow> den fl (Star r) p (u @ v) after caps caps2"
| den_Grp: "den fl r p w after caps caps' \<Longrightarrow> den fl (Grp n r) p w after caps ((n, w) # caps')"
| den_Ahead: "den fl r p u v caps caps' \<Longrightarrow> den fl (Ahead r) p [] (u @ v) caps caps'"
| den_Bol: "den fl Bol 0 [] after caps caps"
| den_Eol: "den fl Eol p [] [] caps caps"

lemma match_lit_den:
  "match_lit ic l s = Some s' \<Longrightarrow>
     \<exists>w. s = w @ s' \<and> length w = length l
        \<and> list_all2 (\<lambda>x c. if ic then canonicalize x = canonicalize c else x = c) w l"
proof (induction ic l s rule: match_lit.induct)
  case (1 ic s)
  then show ?case by simp
next
  case (2 ic c cs)
  then show ?case by simp
next
  case (3 ic c cs x xs)
  from "3.prems" have h: "(if ic then canonicalize x = canonicalize c else x = c)"
    and m: "match_lit ic cs xs = Some s'"
    by (auto split: if_splits)
  from "3.IH"[OF h m] obtain w where "xs = w @ s'" "length w = length cs"
    "list_all2 (\<lambda>x c. if ic then canonicalize x = canonicalize c else x = c) w cs" by blast
  with h show ?case by (intro exI[of _ "x # w"]) simp
qed

definition den_step :: "flags \<Rightarrow> regex \<Rightarrow> mstate \<Rightarrow> mstate \<Rightarrow> bool" where
  "den_step fl r st st' =
     (\<exists>w. fst (snd st) = w @ fst (snd st') \<and> fst st' = fst st + length w
        \<and> den fl r (fst st) w (fst (snd st')) (snd (snd st)) (snd (snd st')))"

lemma den_stepI:
  "s = w @ s' \<Longrightarrow> p' = p + length w \<Longrightarrow> den fl r p w s' caps caps'
     \<Longrightarrow> den_step fl r (p, s, caps) (p', s', caps')"
  unfolding den_step_def by auto

lemma ms_den_step: "st' \<in> set (ms fl r st) \<Longrightarrow> den_step fl r st st'"
proof (induction fl r st arbitrary: st' rule: ms.induct)
  case (1 fl cs p s caps)
  then obtain s1 where a: "match_lit (ignoreCase fl) cs s = Some s1"
    and b: "st' = (p + length cs, s1, caps)"
    by (cases "match_lit (ignoreCase fl) cs s") auto
  from match_lit_den[OF a] obtain w where "s = w @ s1" "length w = length cs"
    "list_all2 (char_eq fl) w cs"
    unfolding char_eq_def by auto
  then show ?case unfolding b by (intro den_stepI[of _ w]) (auto intro: den_Lit)
next
  case (2 fl its p s caps)
  then show ?case
    by (cases s) (auto split: if_splits intro!: den_stepI[of _ "[hd s]"] den_Set)
next
  case (3 fl its p s caps)
  then show ?case
    by (cases s) (auto split: if_splits intro!: den_stepI[of _ "[hd s]"] den_NSet)
next
  case (4 fl p s caps)
  then show ?case
    by (cases s) (auto split: if_splits intro!: den_stepI[of _ "[hd s]"] den_Dot)
next
  case (5 fl st)
  then show ?case by (cases st) (auto intro!: den_stepI[of _ "[]"] den_Cat_Nil)
next
  case (6 fl r rs st)
  from "6.prems" obtain st1 where st1: "st1 \<in> set (ms fl r st)" "st' \<in> set (ms fl (Cat rs) st1)"
    by auto
  from "6.IH"(1)[OF st1(1)] obtain u where
    u: "fst (snd st) = u @ fst (snd st1)" "fst st1 = fst st + length u"
       "den fl r (fst st) u (fst (snd st1)) (snd (snd st)) (snd (snd st1))"
    unfolding den_step_def by blast
  from "6.IH"(2)[OF st1(1) st1(2)] obtain v where
    v: "fst (snd st1) = v @ fst (snd st')" "fst st' = fst st1 + length v"
       "den fl (Cat rs) (fst st1) v (fst (snd st')) (snd (snd st1)) (snd (snd st'))"
    unfolding den_step_def by blast
  have "den fl (Cat (r # rs)) (fst st) (u @ v) (fst (snd st')) (snd (snd st)) (snd (snd st'))"
    using u v by (intro den_Cat_Cons[where ?caps1.0 = "snd (snd st1)"]) auto
  then show ?case
    unfolding den_step_def using u v by (intro exI[of _ "u @ v"]) simp
next
  case (7 fl a b st)
  from "7.prems" have "st' \<in> set (ms fl a st) \<or> st' \<in> set (ms fl b st)" by simp
  then show ?case
    using "7.IH" unfolding den_step_def by (blast intro: den_Alt1 den_Alt2)
next
  case (8 fl r st)
  from "8.prems" have "(st' \<in> set (ms fl r st) \<and> length (fst (snd st')) < length (fst (snd st)))
      \<or> st' = st"
    by auto
  then show ?case
  proof
    assume a: "st' \<in> set (ms fl r st) \<and> length (fst (snd st')) < length (fst (snd st))"
    with "8.IH"[of st'] obtain w where
      w: "fst (snd st) = w @ fst (snd st')" "fst st' = fst st + length w"
         "den fl r (fst st) w (fst (snd st')) (snd (snd st)) (snd (snd st'))"
      unfolding den_step_def by blast
    with a have "w \<noteq> []" by auto
    with w show ?thesis unfolding den_step_def by (blast intro: den_Opt_Some)
  next
    assume "st' = st"
    then show ?thesis unfolding den_step_def by (auto intro: den_Opt_None)
  qed
next
  case (9 fl r st)
  show ?case
  proof (cases "st' = st")
    case True
    then show ?thesis unfolding den_step_def by (auto intro: den_Star_Nil)
  next
    case False
    from "9.prems" have "st' \<in> set (concat (map (\<lambda>st'. if length (fst (snd st')) < length (fst (snd st))
                          then ms fl (Star r) st' else []) (ms fl r st)) @ [st])"
      by (subst (asm) ms_Star)
    with False obtain st1 where st1: "st1 \<in> set (ms fl r st)"
        "length (fst (snd st1)) < length (fst (snd st))" "st' \<in> set (ms fl (Star r) st1)"
      by (auto split: if_splits)
    from "9.IH"(1)[OF st1(1)] obtain u where
      u: "fst (snd st) = u @ fst (snd st1)" "fst st1 = fst st + length u"
         "den fl r (fst st) u (fst (snd st1)) (snd (snd st)) (snd (snd st1))"
      unfolding den_step_def by blast
    from st1(2) u have ne: "u \<noteq> []" by auto
    from "9.IH"(2)[OF st1(1) st1(2) st1(3)] obtain v where
      v: "fst (snd st1) = v @ fst (snd st')" "fst st' = fst st1 + length v"
         "den fl (Star r) (fst st1) v (fst (snd st')) (snd (snd st1)) (snd (snd st'))"
      unfolding den_step_def by blast
    have "den fl (Star r) (fst st) (u @ v) (fst (snd st')) (snd (snd st)) (snd (snd st'))"
      using u v ne by (intro den_Star_Step[where ?caps1.0 = "snd (snd st1)"]) auto
    then show ?thesis
      unfolding den_step_def using u v by (intro exI[of _ "u @ v"]) simp
  qed
next
  case (10 fl n r p s caps)
  from "10.prems" obtain p' s' c where
      a: "(p', s', c) \<in> set (ms fl r (p, s, caps))" and b: "st' = (p', s', (n, take (p' - p) s) # c)"
    by auto
  from "10.IH"[OF a] obtain w where w: "s = w @ s'" "p' = p + length w" "den fl r p w s' caps c"
    unfolding den_step_def by auto
  then have "take (p' - p) s = w" by simp
  with w show ?case unfolding b by (intro den_stepI[of _ w]) (auto intro: den_Grp)
next
  case (11 fl r p s caps)
  from "11.prems" obtain p1 s1 c1 sts where a: "ms fl r (p, s, caps) = (p1, s1, c1) # sts"
    and b: "st' = (p, s, c1)"
    by (cases "ms fl r (p, s, caps)") auto
  from a have "(p1, s1, c1) \<in> set (ms fl r (p, s, caps))" by simp
  from "11.IH"[OF this] obtain u where "s = u @ s1" "den fl r p u s1 caps c1"
    unfolding den_step_def by auto
  then show ?case unfolding b by (intro den_stepI[of _ "[]"]) (auto intro: den_Ahead)
next
  case (12 fl p s caps)
  then show ?case by (auto split: if_splits intro!: den_stepI[of _ "[]"] den_Bol)
next
  case (13 fl p s caps)
  then show ?case by (auto split: if_splits intro!: den_stepI[of _ "[]"] den_Eol)
qed

lemma ms_den:
  "(p', s', caps') \<in> set (ms fl r (p, s, caps)) \<Longrightarrow>
     \<exists>w. s = w @ s' \<and> p' = p + length w \<and> den fl r p w s' caps caps'"
  by (drule ms_den_step) (simp add: den_step_def)

lemma exec_from_den:
  "exec_from fl r p s = Some m \<Longrightarrow>
     \<exists>i w after. s = take i s @ w @ after \<and> i \<le> length s \<and> index m = p + i \<and> matched m = w
        \<and> den fl r (p + i) w after [] (groups m)"
proof (induction fl r p s rule: exec_from.induct)
  case (1 fl r p)
  then obtain p' s' caps sts where a: "ms fl r (p, [], []) = (p', s', caps) # sts"
    and m: "m = \<lparr>index = p, matched = [], groups = caps\<rparr>"
    by (cases "ms fl r (p, [], [])") auto
  from a have "(p', s', caps) \<in> set (ms fl r (p, [], []))" by simp
  from ms_den[OF this] have "den fl r p [] [] [] caps" by auto
  with m show ?case by (intro exI[of _ 0] exI[of _ "[]"]) simp
next
  case (2 fl r p x xs)
  show ?case
  proof (cases "ms fl r (p, x # xs, [])")
    case Nil
    with 2 obtain i w after where "xs = take i xs @ w @ after" "i \<le> length xs" "index m = Suc p + i"
      "matched m = w" "den fl r (Suc p + i) w after [] (groups m)"
      by auto
    then show ?thesis
      by (intro exI[of _ "Suc i"] exI[of _ w] exI[of _ after]) simp
  next
    case (Cons st sts)
    obtain p' s' caps where st: "st = (p', s', caps)" by (cases st)
    from Cons st have "(p', s', caps) \<in> set (ms fl r (p, x # xs, []))" by simp
    from ms_den[OF this] obtain w where w: "x # xs = w @ s'" "p' = p + length w"
      "den fl r p w s' [] caps" by blast
    from 2(2) Cons st have m: "m = \<lparr>index = p, matched = take (p' - p) (x # xs), groups = caps\<rparr>"
      by simp
    have "take (p' - p) (x # xs) = w" using w by (metis add_diff_cancel_left' append_eq_conv_conj)
    with m w show ?thesis
      by (intro exI[of _ 0] exI[of _ w] exI[of _ s']) simp
  qed
qed

lemma exec_den:
  assumes "exec fl r s = Some m"
  shows "\<exists>after. s = take (index m) s @ matched m @ after \<and> index m \<le> length s
        \<and> den fl r (index m) (matched m) after [] (groups m)"
  using exec_from_den[OF assms[unfolded exec_def]] by auto

section \<open>The statement tokenizer\<close>

definition DOLLAR_QUOTE_REGEX :: regex where
  \<comment> \<open>\<open>/^\$(?:[A-Za-z_][A-Za-z0-9_]*)?\$/\<close>\<close>
  "DOLLAR_QUOTE_REGEX = Cat [Bol, Lit ''$'',
     Opt (Cat [Set [Rng CHR ''A'' CHR ''Z'', Rng CHR ''a'' CHR ''z'', Ch CHR ''_''],
               Star (Set [Rng CHR ''A'' CHR ''Z'', Rng CHR ''a'' CHR ''z'',
                          Rng CHR ''0'' CHR ''9'', Ch CHR ''_''])]),
     Lit ''$'']"

datatype separator = Semicolon | Comma

fun separator_char :: "separator \<Rightarrow> char" where
  "separator_char Semicolon = CHR '';''"
| "separator_char Comma = CHR '',''"

text \<open>The local variables of \<open>splitIntoStatements\<close>; the input from \<open>pos\<close> on is passed beside them.\<close>

record scanner =
  statements :: "string list"
  currentStatement :: string
  inDashComment :: bool
  inBlockComment :: bool
  inSingleQuote :: bool
  inDoubleQuote :: bool

definition dollarQuote :: "string \<Rightarrow> string \<times> string" where
  \<comment> \<open>the branch \<open>char === '$'\<close>: the text appended to \<open>currentStatement\<close>, and the input from the
      new \<open>pos\<close> on\<close>
  "dollarQuote s =
     (case exec noflags DOLLAR_QUOTE_REGEX s of
        Some m \<Rightarrow>
          (let dollarQuoteTag = matched m in
           case indexOf dollarQuoteTag (drop (length dollarQuoteTag) s) of
             Some k \<Rightarrow> (take (length dollarQuoteTag + k + length dollarQuoteTag) s,
                        drop (length dollarQuoteTag + k + length dollarQuoteTag) s)
           | None \<Rightarrow> (dollarQuoteTag, drop (length dollarQuoteTag) s))
      | None \<Rightarrow> (take 1 s, drop 1 s))"


lemma ms_Cat_Bol_Lit:
  "ms fl (Cat (Bol # Lit [c] # rs)) (0, x # xs, []) =
     (if (if ignoreCase fl then canonicalize x = canonicalize c else x = c)
      then ms fl (Cat rs) (1, xs, []) else [])"
  by simp

lemma ms_Cat_Bol_Lit_Nil: "ms fl (Cat (Bol # Lit [c] # rs)) (0, [], []) = []"
  by simp

lemma dollar_tag_nonempty:
  assumes "exec noflags DOLLAR_QUOTE_REGEX s = Some m"
  shows "matched m \<noteq> []"
proof (cases s)
  case Nil
  have "ms noflags DOLLAR_QUOTE_REGEX (0, [], []) = []"
    unfolding DOLLAR_QUOTE_REGEX_def by (rule ms_Cat_Bol_Lit_Nil)
  with assms Nil show ?thesis
    by (simp add: exec_def)
next
  case (Cons x xs)
  obtain rs where rs: "DOLLAR_QUOTE_REGEX = Cat (Bol # Lit ''$'' # rs)"
    unfolding DOLLAR_QUOTE_REGEX_def by blast
  show ?thesis
  proof (cases "ms noflags DOLLAR_QUOTE_REGEX (0, x # xs, [])")
    case Nil
    have "exec_from noflags DOLLAR_QUOTE_REGEX (Suc 0) xs = None"
      unfolding rs by (rule exec_from_Bol_pos) simp
    with assms \<open>s = x # xs\<close> Nil show ?thesis
      by (simp add: exec_def)
  next
    case (Cons st sts)
    obtain p' s' caps where st: "st = (p', s', caps)" by (cases st)
    from Cons have "st \<in> set (ms noflags DOLLAR_QUOTE_REGEX (0, x # xs, []))"
      by simp
    then have "st \<in> set (ms noflags (Cat rs) (1, xs, []))"
      unfolding rs ms_Cat_Bol_Lit by (simp split: if_splits del: ms.simps)
    then have "advances (1, xs, []) st" by (rule ms_advances)
    then have "1 \<le> p'" by (auto simp: advances_def st)
    moreover from assms \<open>s = x # xs\<close> Cons st
    have "matched m = take (p' - 0) (x # xs)"
      by (auto simp: exec_def)
    ultimately show ?thesis by (cases p') auto
  qed
qed

lemma dollar_tag_prefix:
  assumes "exec noflags DOLLAR_QUOTE_REGEX s = Some m"
  shows "matched m = take (length (matched m)) s" "length (matched m) \<le> length s"
  using assms unfolding DOLLAR_QUOTE_REGEX_def by (rule exec_Bol_prefix)+

lemma dollarQuote_append: "fst (dollarQuote s) @ snd (dollarQuote s) = s"
proof (cases "exec noflags DOLLAR_QUOTE_REGEX s")
  case None
  then show ?thesis by (simp add: dollarQuote_def)
next
  case (Some m)
  have "matched m @ drop (length (matched m)) s = s"
    using dollar_tag_prefix(1)[OF Some] append_take_drop_id[of "length (matched m)" s] by simp
  with Some show ?thesis
    by (simp add: dollarQuote_def Let_def split: option.splits)
qed

lemma dollarQuote_shorter: "s \<noteq> [] \<Longrightarrow> length (snd (dollarQuote s)) < length s"
  unfolding dollarQuote_def
  by (auto simp: Let_def split: option.splits dest!: dollar_tag_nonempty)


lemma dollarQuote_shorter_Cons:
  "length (snd (dollarQuote (c # cs))) \<le> length cs"
  "length (snd (dollarQuote (c # cs))) < Suc (length cs)"
  using dollarQuote_shorter[of "c # cs"] by simp_all

text \<open>
  One iteration of the \<open>while (pos < len)\<close> loop, on the scanner and the input from \<open>pos\<close> on
  (\<open>char\<close> is \<open>content[pos]\<close>, \<open>nextChar\<close> is \<open>content[pos + 1]\<close>): the new scanner and the input
  from the new \<open>pos\<close> on.
\<close>

fun step :: "separator \<Rightarrow> scanner \<Rightarrow> string \<Rightarrow> scanner \<times> string" where
  "step sep st [] = (st, [])"
| "step sep st (char # cs) =
    (let nextChar = (case cs of [] \<Rightarrow> None | c # _ \<Rightarrow> Some c) in
     if char = CHR ''$'' then
       (st\<lparr>currentStatement := currentStatement st @ fst (dollarQuote (char # cs))\<rparr>,
        snd (dollarQuote (char # cs)))
     else if \<not> inSingleQuote st \<and> \<not> inDoubleQuote st \<and> \<not> inBlockComment st
          \<and> char = CHR ''-'' \<and> nextChar = Some CHR ''-'' then
       (st\<lparr>inDashComment := True, currentStatement := currentStatement st @ ''--''\<rparr>, tl cs)
     else if \<not> inSingleQuote st \<and> \<not> inDoubleQuote st \<and> \<not> inDashComment st
          \<and> char = CHR ''/'' \<and> nextChar = Some CHR ''*'' then
       (st\<lparr>inBlockComment := True, currentStatement := currentStatement st @ ''/*''\<rparr>, tl cs)
     else if inDashComment st then
       ((if char = CHR 0x0A \<or> char = CHR 0x0D then st\<lparr>inDashComment := False\<rparr> else st)
          \<lparr>currentStatement := currentStatement st @ [char]\<rparr>, cs)
     else if inBlockComment st then
       (if char = CHR ''*'' \<and> nextChar = Some CHR ''/'' then
          (st\<lparr>inBlockComment := False, currentStatement := currentStatement st @ ''*/''\<rparr>, tl cs)
        else (st\<lparr>currentStatement := currentStatement st @ [char]\<rparr>, cs))
     else
       (let st' = (if \<not> inDoubleQuote st \<and> char = CHR 0x27
                     then st\<lparr>inSingleQuote := \<not> inSingleQuote st\<rparr>
                   else if \<not> inSingleQuote st \<and> char = CHR 0x22
                     then st\<lparr>inDoubleQuote := \<not> inDoubleQuote st\<rparr>
                   else st) in
        if \<not> inSingleQuote st' \<and> \<not> inDoubleQuote st' \<and> char = separator_char sep then
          (st'\<lparr>statements := statements st' @ [currentStatement st' @ [char]],
                currentStatement := []\<rparr>, cs)
        else (st'\<lparr>currentStatement := currentStatement st' @ [char]\<rparr>, cs)))"

definition emits :: "separator \<Rightarrow> scanner \<Rightarrow> string \<Rightarrow> string \<Rightarrow> bool" where
  "emits sep st s emitted =
     (s = emitted @ snd (step sep st s)
      \<and> (statements (fst (step sep st s)) = statements st
          \<and> currentStatement (fst (step sep st s)) = currentStatement st @ emitted
        \<or> statements (fst (step sep st s)) = statements st @ [currentStatement st @ emitted]
          \<and> currentStatement (fst (step sep st s)) = []))"

lemma step_emits_plain:
  "char \<noteq> CHR ''$'' \<Longrightarrow>
     emits sep st (char # cs) [char] \<or> (cs \<noteq> [] \<and> emits sep st (char # cs) [char, hd cs])"
  unfolding emits_def by (cases cs) (auto simp: Let_def)

lemma step_shape:
  assumes "s \<noteq> []"
  shows "\<exists>emitted. emitted \<noteq> [] \<and> emits sep st s emitted"
proof -
  from assms obtain char cs where s: "s = char # cs" by (cases s) auto
  show ?thesis
  proof (cases "char = CHR ''$''")
    case True
    have "fst (dollarQuote s) \<noteq> []"
      using dollarQuote_append[of s] dollarQuote_shorter[OF assms] by auto
    then show ?thesis
      using True dollarQuote_append[of s] unfolding emits_def
      by (intro exI[of _ "fst (dollarQuote s)"]) (simp add: s)
  next
    case False
    from step_emits_plain[OF False, of sep st cs] show ?thesis
      unfolding s by blast
  qed
qed

lemma step_shorter: "s \<noteq> [] \<Longrightarrow> length (snd (step sep st s)) < length s"
proof -
  assume "s \<noteq> []"
  from step_shape[OF this, of sep st] obtain emitted where
    "emitted \<noteq> []" "s = emitted @ snd (step sep st s)" unfolding emits_def by blast
  then have "length s = length emitted + length (snd (step sep st s))" "0 < length emitted"
    by (metis length_append, simp)
  then show ?thesis by simp
qed

text \<open>The loop itself, and the function around it.\<close>

function scan :: "separator \<Rightarrow> scanner \<Rightarrow> string \<Rightarrow> scanner" where
  "scan sep st s = (if s = [] then st else (case step sep st s of (st', s') \<Rightarrow> scan sep st' s'))"
  by pat_completeness auto
termination
proof (relation "measure (\<lambda>(sep, st, s). length s)")
  show "wf (measure (\<lambda>(sep :: separator, st :: scanner, s :: string). length s))"
    by simp
next
  fix sep :: separator and st st' :: scanner and s s' :: string
  assume "s \<noteq> []" "(st', s') = step sep st s"
  then have "s' = snd (step sep st s)" by (metis snd_conv)
  with \<open>s \<noteq> []\<close> show "((sep, st', s'), (sep, st, s)) \<in> measure (\<lambda>(sep, st, s). length s)"
    by (simp add: step_shorter)
qed

declare scan.simps [simp del]

definition splitIntoStatements :: "string \<Rightarrow> separator \<Rightarrow> string list" where
  "splitIntoStatements content sep =
     (let st = scan sep \<lparr>statements = [], currentStatement = [], inDashComment = False,
                          inBlockComment = False, inSingleQuote = False, inDoubleQuote = False\<rparr> content
      in if currentStatement st \<noteq> [] then statements st @ [currentStatement st] else statements st)"


lemma step_concat:
  assumes "s \<noteq> []"
  shows "concat (statements (fst (step sep st s))) @ currentStatement (fst (step sep st s))
       @ snd (step sep st s)
     = concat (statements st) @ currentStatement st @ s"
proof -
  from step_shape[OF assms, of sep st] obtain emitted where e: "s = emitted @ snd (step sep st s)"
     and d: "statements (fst (step sep st s)) = statements st
          \<and> currentStatement (fst (step sep st s)) = currentStatement st @ emitted
        \<or> statements (fst (step sep st s)) = statements st @ [currentStatement st @ emitted]
          \<and> currentStatement (fst (step sep st s)) = []"
    unfolding emits_def by blast
  from d show ?thesis
    by (subst (3) e) auto
qed

lemma scan_concat:
  "concat (statements (scan sep st s)) @ currentStatement (scan sep st s)
     = concat (statements st) @ currentStatement st @ s"
proof (induction sep st s rule: scan.induct)
  case (1 sep st s)
  show ?case
  proof (cases "s = []")
    case True
    then show ?thesis by (simp add: scan.simps)
  next
    case False
    obtain st' s' where st: "step sep st s = (st', s')" by (cases "step sep st s")
    have "concat (statements (scan sep st' s')) @ currentStatement (scan sep st' s')
        = concat (statements st') @ currentStatement st' @ s'"
      using 1[OF False st[symmetric]] .
    moreover have "scan sep st s = scan sep st' s'"
      using False st by (subst scan.simps) simp
    ultimately show ?thesis
      using step_concat[OF False, of sep st] st by simp
  qed
qed

lemma step_nonempty:
  assumes "[] \<notin> set (statements st)"
  shows "[] \<notin> set (statements (fst (step sep st s)))"
proof (cases "s = []")
  case True
  with assms show ?thesis by simp
next
  case False
  from step_shape[OF False, of sep st] assms show ?thesis
    unfolding emits_def by auto
qed

lemma scan_nonempty:
  "[] \<notin> set (statements st) \<Longrightarrow> [] \<notin> set (statements (scan sep st s))"
proof (induction sep st s rule: scan.induct)
  case (1 sep st s)
  show ?case
  proof (cases "s = []")
    case True
    with 1 show ?thesis by (simp add: scan.simps)
  next
    case False
    obtain st' s' where st: "step sep st s = (st', s')" by (cases "step sep st s")
    have "[] \<notin> set (statements st')"
      using step_nonempty[OF "1.prems", of sep s] st by simp
    then have "[] \<notin> set (statements (scan sep st' s'))"
      using 1(1)[OF False st[symmetric]] by simp
    moreover have "scan sep st s = scan sep st' s'"
      using False st by (subst scan.simps) simp
    ultimately show ?thesis by simp
  qed
qed

subsection \<open>Facts about one step of the tokenizer\<close>

definition isNormal :: "scanner \<Rightarrow> bool" where
  "isNormal st = (\<not> inDashComment st \<and> \<not> inBlockComment st \<and> \<not> inSingleQuote st \<and> \<not> inDoubleQuote st)"

lemma indexOf_Some:
  "indexOf t s = Some k \<Longrightarrow> k + length t \<le> length s \<and> take (length t) (drop k s) = t"
proof (induction s arbitrary: k)
  case Nil
  then show ?case by (simp split: if_splits)
next
  case (Cons x xs)
  show ?case
  proof (cases "prefix t (x # xs)")
    case True
    then obtain zs where "x # xs = t @ zs" by (auto simp: prefix_def)
    moreover from True Cons.prems have "k = 0" by simp
    ultimately show ?thesis by (metis add_0 append_eq_conv_conj drop0 length_append le_add1)
  next
    case False
    with Cons.prems obtain k' where "indexOf t xs = Some k'" "k = Suc k'" by auto
    with Cons.IH[of k'] show ?thesis by simp
  qed
qed

lemma dollar_tag_head:
  assumes "exec noflags DOLLAR_QUOTE_REGEX s = Some m"
  shows "\<exists>cs. s = CHR ''$'' # cs"
proof (cases s)
  case Nil
  have "ms noflags DOLLAR_QUOTE_REGEX (0, [], []) = []"
    unfolding DOLLAR_QUOTE_REGEX_def by (rule ms_Cat_Bol_Lit_Nil)
  with assms Nil show ?thesis by (simp add: exec_def)
next
  case (Cons x xs)
  obtain rs where rs: "DOLLAR_QUOTE_REGEX = Cat (Bol # Lit ''$'' # rs)"
    unfolding DOLLAR_QUOTE_REGEX_def by blast
  have "exec_from noflags DOLLAR_QUOTE_REGEX (Suc 0) xs = None"
    unfolding rs by (rule exec_from_Bol_pos) simp
  moreover have "x \<noteq> CHR ''$'' \<Longrightarrow> ms noflags DOLLAR_QUOTE_REGEX (0, x # xs, []) = []"
    unfolding rs ms_Cat_Bol_Lit by (simp add: noflags_def)
  ultimately show ?thesis
    using assms Cons by (cases "x = CHR ''$''") (auto simp: exec_def)
qed

lemma step_dollar:
  "step sep st (CHR ''$'' # cs) =
     (st\<lparr>currentStatement := currentStatement st @ fst (dollarQuote (CHR ''$'' # cs))\<rparr>,
      snd (dollarQuote (CHR ''$'' # cs)))"
  by (simp add: Let_def)


lemma scan_step: "s \<noteq> [] \<Longrightarrow> scan sep st s = scan sep (fst (step sep st s)) (snd (step sep st s))"
  by (subst scan.simps) (simp add: case_prod_beta)



subsection \<open>Statements without quotes, comments and dollar signs\<close>

text \<open>
  A run of characters that start no comment, quote or dollar-quote is copied to the current
  statement by a scanner in the Normal state, and the separator behind it ends the statement.
\<close>

definition plain :: "separator \<Rightarrow> char \<Rightarrow> bool" where
  "plain sep c = (c \<noteq> CHR ''$'' \<and> c \<noteq> CHR ''-'' \<and> c \<noteq> CHR ''/'' \<and> c \<noteq> CHR 0x27 \<and> c \<noteq> CHR 0x22
     \<and> c \<noteq> separator_char sep)"

lemma step_plain:
  "isNormal st \<Longrightarrow> plain sep c \<Longrightarrow>
     step sep st (c # cs) = (st\<lparr>currentStatement := currentStatement st @ [c]\<rparr>, cs)"
  by (simp add: isNormal_def plain_def Let_def)

lemma step_normal_separator:
  "isNormal st \<Longrightarrow>
     step sep st (separator_char sep # cs) =
       (st\<lparr>statements := statements st @ [currentStatement st @ [separator_char sep]],
           currentStatement := []\<rparr>, cs)"
  by (cases sep) (simp_all add: isNormal_def Let_def)

lemma scan_plain:
  "isNormal st \<Longrightarrow> list_all (plain sep) xs \<Longrightarrow>
     scan sep st (xs @ rest) = scan sep (st\<lparr>currentStatement := currentStatement st @ xs\<rparr>) rest"
proof (induction xs arbitrary: st)
  case Nil
  then show ?case by simp
next
  case (Cons x xs)
  have n: "isNormal (st\<lparr>currentStatement := currentStatement st @ [x]\<rparr>)"
    using Cons.prems(1) by (simp add: isNormal_def)
  have "scan sep st ((x # xs) @ rest) = scan sep (st\<lparr>currentStatement := currentStatement st @ [x]\<rparr>) (xs @ rest)"
    using Cons.prems step_plain[of st sep x "xs @ rest"] by (subst scan.simps) simp
  also have "\<dots> = scan sep (st\<lparr>currentStatement := currentStatement st @ [x]\<rparr>
                      \<lparr>currentStatement := currentStatement (st\<lparr>currentStatement := currentStatement st @ [x]\<rparr>) @ xs\<rparr>) rest"
    using Cons.prems by (intro Cons.IH[OF n]) simp
  finally show ?case by simp
qed

lemma scan_separator:
  "isNormal st \<Longrightarrow>
     scan sep st (separator_char sep # rest) =
       scan sep (st\<lparr>statements := statements st @ [currentStatement st @ [separator_char sep]],
                     currentStatement := []\<rparr>) rest"
  using step_normal_separator[of st sep rest] by (subst scan.simps) simp

lemma scan_plain_statements:
  "isNormal st \<Longrightarrow> currentStatement st = [] \<Longrightarrow> list_all (list_all (plain sep)) stmts \<Longrightarrow>
     scan sep st (concat (map (\<lambda>s. s @ [separator_char sep]) stmts) @ rest) =
       scan sep (st\<lparr>statements := statements st @ map (\<lambda>s. s @ [separator_char sep]) stmts\<rparr>) rest"
proof (induction stmts arbitrary: st)
  case Nil
  then show ?case by simp
next
  case (Cons s stmts)
  let ?st1 = "st\<lparr>currentStatement := currentStatement st @ s\<rparr>"
  let ?st2 = "?st1\<lparr>statements := statements ?st1 @ [currentStatement ?st1 @ [separator_char sep]],
                     currentStatement := []\<rparr>"
  have n1: "isNormal ?st1" and n2: "isNormal ?st2"
    using Cons.prems(1) by (simp_all add: isNormal_def)
  have "scan sep st (concat (map (\<lambda>s. s @ [separator_char sep]) (s # stmts)) @ rest)
      = scan sep st (s @ (separator_char sep # concat (map (\<lambda>s. s @ [separator_char sep]) stmts) @ rest))"
    by simp
  also have "\<dots> = scan sep ?st1 (separator_char sep # concat (map (\<lambda>s. s @ [separator_char sep]) stmts) @ rest)"
    using Cons.prems by (intro scan_plain) simp_all
  also have "\<dots> = scan sep ?st2 (concat (map (\<lambda>s. s @ [separator_char sep]) stmts) @ rest)"
    by (rule scan_separator[OF n1])
  also have "\<dots> = scan sep (?st2\<lparr>statements := statements ?st2 @ map (\<lambda>s. s @ [separator_char sep]) stmts\<rparr>) rest"
    using Cons.prems by (intro Cons.IH[OF n2]) simp_all
  finally have "scan sep st (concat (map (\<lambda>s. s @ [separator_char sep]) (s # stmts)) @ rest)
      = scan sep (?st2\<lparr>statements := statements ?st2 @ map (\<lambda>s. s @ [separator_char sep]) stmts\<rparr>) rest" .
  moreover have "?st2\<lparr>statements := statements ?st2 @ map (\<lambda>s. s @ [separator_char sep]) stmts\<rparr>
      = st\<lparr>statements := statements st @ map (\<lambda>s. s @ [separator_char sep]) (s # stmts)\<rparr>"
    using Cons.prems(2) by (cases st) simp
  ultimately show ?case by simp
qed

lemma splitIntoStatements_plain:
  assumes "list_all (list_all (plain sep)) stmts" "list_all (plain sep) lst"
  shows "splitIntoStatements (concat (map (\<lambda>s. s @ [separator_char sep]) stmts) @ lst) sep
     = map (\<lambda>s. s @ [separator_char sep]) stmts @ (if lst = [] then [] else [lst])"
proof -
  let ?init = "\<lparr>statements = [], currentStatement = [], inDashComment = False,
                 inBlockComment = False, inSingleQuote = False, inDoubleQuote = False\<rparr>"
  let ?st1 = "?init\<lparr>statements := map (\<lambda>s. s @ [separator_char sep]) stmts\<rparr>"
  have "scan sep ?init (concat (map (\<lambda>s. s @ [separator_char sep]) stmts) @ lst) = scan sep ?st1 lst"
    using scan_plain_statements[of ?init sep stmts lst] assms(1) by (simp add: isNormal_def)
  also have "\<dots> = scan sep (?st1\<lparr>currentStatement := lst\<rparr>) []"
    using scan_plain[of ?st1 sep lst "[]"] assms(2) by (simp add: isNormal_def)
  also have "\<dots> = ?st1\<lparr>currentStatement := lst\<rparr>"
    by (simp add: scan.simps)
  finally show ?thesis
    by (simp add: splitIntoStatements_def Let_def)
qed


subsection \<open>Dollar-quoted text\<close>






















section \<open>The data model\<close>

datatype DatabaseObjectType =
  Schema | Extension | Type | Domain | Function | Procedure | Table | View

text \<open>\<open>BaseParser.type\<close>: \<open>DatabaseObjectType | 'sequence' | 'constraint' | 'index'\<close>.\<close>

datatype StatementType = Terminal DatabaseObjectType | Sequence | Constraint | Index

text \<open>
  The union \<open>ParsedStatement\<close> as one record: a field that a variant does not have is \<open>None\<close>,
  and so is a field set from a capture group that took no part in the match (\<open>undefined\<close>).
\<close>

record ParsedStatement =
  p_type :: StatementType
  p_schema :: "string option"
  p_name :: "string option"
  p_qualifiedName :: "string option"
  p_definition :: string
  p_residual :: "string option"
  p_tableSchema :: "string option"
  p_table :: "string option"
  p_column :: "string option"

record DatabaseObject =
  type :: DatabaseObjectType
  schema :: "string option"
  name :: "string option"
  qualifiedName :: "string option"
  definition' :: string
  sequences :: "string list option"
  constraints :: "string list option"
  indexes :: "string list option"

record ParsedResult =
  objects :: "DatabaseObject list"
  residual :: string

definition DEFAULT_SCHEMA :: string where
  "DEFAULT_SCHEMA = ''public''"

fun str :: "string option \<Rightarrow> string" where
  \<comment> \<open>a value inside a template literal\<close>
  "str None = ''undefined''"
| "str (Some s) = s"

definition makeQualifiedName :: "string option \<Rightarrow> string option \<Rightarrow> string" where
  "makeQualifiedName s n = str s @ ''.'' @ str n"

fun nullish :: "string option \<Rightarrow> string \<Rightarrow> string option" where
  \<comment> \<open>\<open>a ?? b\<close>\<close>
  "nullish None d = Some d"
| "nullish (Some s) d = Some s"

section \<open>The object classifier\<close>

definition iu :: flags where
  "iu = \<lparr>ignoreCase = True, dotAll = False\<rparr>"

definition isu :: flags where
  "isu = \<lparr>ignoreCase = True, dotAll = True\<rparr>"

definition ws1 :: regex where
  \<comment> \<open>\<open>\s+\<close>\<close>
  "ws1 = Plus (Set [ClsS])"

definition ws0 :: regex where
  \<comment> \<open>\<open>\s*\<close>\<close>
  "ws0 = Star (Set [ClsS])"

definition IDENTIFIER_PATTERN :: regex where
  \<comment> \<open>\<open>(?:[_\p{L}][_\p{L}\p{N}$]*|"(?:[^"]|"")+")\<close>\<close>
  "IDENTIFIER_PATTERN =
     Alt (Cat [Set [Ch CHR ''_'', ClsL], Star (Set [Ch CHR ''_'', ClsL, ClsN, Ch CHR ''$''])])
         (Cat [Lit [CHR 0x22],
               Plus (Alt (NSet [Ch (CHR 0x22)]) (Lit [CHR 0x22, CHR 0x22])),
               Lit [CHR 0x22]])"

definition SCHEMA_QUALIFIED_OBJECT_PATTERN :: "nat \<Rightarrow> nat \<Rightarrow> regex" where
  \<comment> \<open>\<open>(?:(IDENTIFIER)\.)?(IDENTIFIER)\<close>, with the numbers its two groups have in the pattern
      it is part of\<close>
  "SCHEMA_QUALIFIED_OBJECT_PATTERN g1 g2 =
     Cat [Opt (Cat [Grp g1 IDENTIFIER_PATTERN, Lit ''.'']), Grp g2 IDENTIFIER_PATTERN]"

datatype parser = SchemaParser | ExtensionParser | TypeParser | DomainParser | FunctionParser
  | ProcedureParser | TableParser | SequenceParser | ViewParser | ConstraintParser | IndexParser

definition SchemaParser_regex :: regex where
  "SchemaParser_regex = Cat [Lit ''CREATE'', ws1, Lit ''SCHEMA'', ws1, Grp 1 IDENTIFIER_PATTERN]"

definition ExtensionParser_regex :: regex where
  "ExtensionParser_regex = Cat [Lit ''CREATE'', ws1, Lit ''EXTENSION'', ws1,
     Opt (Cat [Lit ''IF'', ws1, Lit ''NOT'', ws1, Lit ''EXISTS'', ws1]),
     Grp 1 IDENTIFIER_PATTERN,
     Opt (Cat [Opt (Cat [ws1, Lit ''WITH'']), Opt (Cat [ws1, Lit ''SCHEMA'']), ws1,
               Grp 2 IDENTIFIER_PATTERN])]"

definition TypeParser_regex :: regex where
  "TypeParser_regex = Cat [Lit ''CREATE'', ws1, Lit ''TYPE'', ws1,
     SCHEMA_QUALIFIED_OBJECT_PATTERN 1 2]"

definition DomainParser_regex :: regex where
  "DomainParser_regex = Cat [Lit ''CREATE'', ws1, Lit ''DOMAIN'', ws1,
     SCHEMA_QUALIFIED_OBJECT_PATTERN 1 2]"

definition FunctionParser_regex :: regex where
  "FunctionParser_regex = Cat [Lit ''CREATE'', ws1, Lit ''FUNCTION'', ws1,
     SCHEMA_QUALIFIED_OBJECT_PATTERN 1 2]"

definition ProcedureParser_regex :: regex where
  "ProcedureParser_regex = Cat [Lit ''CREATE'', ws1, Lit ''PROCEDURE'', ws1,
     SCHEMA_QUALIFIED_OBJECT_PATTERN 1 2]"

definition TableParser_regex :: regex where
  "TableParser_regex = Cat [Lit ''CREATE'', ws1, Opt (Cat [Lit ''UNLOGGED'', ws1]),
     Lit ''TABLE'', ws1, SCHEMA_QUALIFIED_OBJECT_PATTERN 1 2]"

definition SequenceParser_regex :: regex where
  "SequenceParser_regex = Cat [Lit ''ALTER'', ws1, Lit ''TABLE'', ws1,
     Opt (Cat [Lit ''ONLY'', ws1]), SCHEMA_QUALIFIED_OBJECT_PATTERN 1 2,
     ws1, Lit ''ALTER'', ws1, Opt (Cat [Lit ''COLUMN'', ws1]), Grp 3 IDENTIFIER_PATTERN,
     ws1, Lit ''ADD'', ws1,
     Lit ''GENERATED'', ws1, Alt (Lit ''ALWAYS'') (Cat [Lit ''BY'', ws1, Lit ''DEFAULT'']),
     ws1, Lit ''AS'', ws1, Lit ''IDENTITY'', ws1,
     Lit ''('', ws0, Lit ''SEQUENCE'', ws1, Lit ''NAME'', ws1,
     SCHEMA_QUALIFIED_OBJECT_PATTERN 4 5, Star Dot, Lit '')'', ws0, Lit '';'',
     Star (NSet [Ch CHR '';'']), Eol]"

definition ViewParser_regex :: regex where
  "ViewParser_regex = Cat [Lit ''CREATE'', ws1,
     Opt (Alt (Cat [Lit ''RECURSIVE'', ws1]) (Cat [Lit ''MATERIALIZED'', ws1])),
     Lit ''VIEW'', ws1, SCHEMA_QUALIFIED_OBJECT_PATTERN 1 2]"

definition ConstraintParser_regex :: regex where
  "ConstraintParser_regex = Cat [Lit ''ALTER'', ws1, Lit ''TABLE'', ws1,
     Opt (Cat [Lit ''ONLY'', ws1]), SCHEMA_QUALIFIED_OBJECT_PATTERN 1 2,
     ws1, Lit ''ADD'', ws1, Lit ''CONSTRAINT'', ws1, Grp 3 IDENTIFIER_PATTERN]"

definition IndexParser_regex :: regex where
  "IndexParser_regex = Cat [Lit ''CREATE'', ws1, Opt (Cat [Lit ''UNIQUE'', ws1]),
     Lit ''INDEX'', ws1, Opt (Cat [Grp 1 IDENTIFIER_PATTERN, ws1]),
     Lit ''ON'', ws1, Opt (Cat [Lit ''ONLY'', ws1]), SCHEMA_QUALIFIED_OBJECT_PATTERN 2 3]"

fun regex_of :: "parser \<Rightarrow> regex" where
  "regex_of SchemaParser = SchemaParser_regex"
| "regex_of ExtensionParser = ExtensionParser_regex"
| "regex_of TypeParser = TypeParser_regex"
| "regex_of DomainParser = DomainParser_regex"
| "regex_of FunctionParser = FunctionParser_regex"
| "regex_of ProcedureParser = ProcedureParser_regex"
| "regex_of TableParser = TableParser_regex"
| "regex_of SequenceParser = SequenceParser_regex"
| "regex_of ViewParser = ViewParser_regex"
| "regex_of ConstraintParser = ConstraintParser_regex"
| "regex_of IndexParser = IndexParser_regex"

fun flags_of :: "parser \<Rightarrow> flags" where
  "flags_of SequenceParser = isu"
| "flags_of p = iu"

fun type_of :: "parser \<Rightarrow> StatementType" where
  "type_of SchemaParser = Terminal Schema"
| "type_of ExtensionParser = Terminal Extension"
| "type_of TypeParser = Terminal Type"
| "type_of DomainParser = Terminal Domain"
| "type_of FunctionParser = Terminal Function"
| "type_of ProcedureParser = Terminal Procedure"
| "type_of TableParser = Terminal Table"
| "type_of SequenceParser = Sequence"
| "type_of ViewParser = Terminal View"
| "type_of ConstraintParser = Constraint"
| "type_of IndexParser = Index"

definition extractDefinition :: "rmatch \<Rightarrow> string \<Rightarrow> string \<times> string option" where
  \<comment> \<open>the definition and the residual\<close>
  "extractDefinition m statement =
     (if index m \<noteq> 0 then (drop (index m) statement, Some (take (index m) statement))
      else (statement, None))"

definition GeneralParser_parse :: "StatementType \<Rightarrow> rmatch \<Rightarrow> string \<Rightarrow> ParsedStatement" where
  "GeneralParser_parse t m statement =
     (let s = nullish (grp m 1) DEFAULT_SCHEMA; n = grp m 2 in
      \<lparr>p_type = t, p_schema = s, p_name = n, p_qualifiedName = Some (makeQualifiedName s n),
       p_definition = fst (extractDefinition m statement),
       p_residual = snd (extractDefinition m statement),
       p_tableSchema = None, p_table = None, p_column = None\<rparr>)"

fun parse_of :: "parser \<Rightarrow> rmatch \<Rightarrow> string \<Rightarrow> ParsedStatement" where
  "parse_of SchemaParser m statement =
     (let s = grp m 1 in
      \<lparr>p_type = Terminal Schema, p_schema = s, p_name = s, p_qualifiedName = None,
       p_definition = fst (extractDefinition m statement),
       p_residual = snd (extractDefinition m statement),
       p_tableSchema = None, p_table = None, p_column = None\<rparr>)"
| "parse_of ExtensionParser m statement =
     (let s = nullish (grp m 2) DEFAULT_SCHEMA; n = grp m 1 in
      \<lparr>p_type = Terminal Extension, p_schema = s, p_name = n,
       p_qualifiedName = Some (makeQualifiedName s n),
       p_definition = fst (extractDefinition m statement),
       p_residual = snd (extractDefinition m statement),
       p_tableSchema = None, p_table = None, p_column = None\<rparr>)"
| "parse_of SequenceParser m statement =
     (let s = nullish (grp m 4) DEFAULT_SCHEMA; n = grp m 5 in
      \<lparr>p_type = Sequence, p_schema = s, p_name = n,
       p_qualifiedName = Some (makeQualifiedName s n),
       p_definition = fst (extractDefinition m statement),
       p_residual = snd (extractDefinition m statement),
       p_tableSchema = nullish (grp m 1) DEFAULT_SCHEMA, p_table = grp m 2,
       p_column = grp m 3\<rparr>)"
| "parse_of ConstraintParser m statement =
     (let s = nullish (grp m 1) DEFAULT_SCHEMA; n = grp m 3 in
      \<lparr>p_type = Constraint, p_schema = s, p_name = n,
       p_qualifiedName = Some (makeQualifiedName s n),
       p_definition = fst (extractDefinition m statement),
       p_residual = snd (extractDefinition m statement),
       p_tableSchema = None, p_table = grp m 2, p_column = None\<rparr>)"
| "parse_of IndexParser m statement =
     (let s = nullish (grp m 2) DEFAULT_SCHEMA; n = grp m 1 in
      \<lparr>p_type = Index, p_schema = s, p_name = n,
       p_qualifiedName = Some (makeQualifiedName s n),
       p_definition = fst (extractDefinition m statement),
       p_residual = snd (extractDefinition m statement),
       p_tableSchema = None, p_table = grp m 3, p_column = None\<rparr>)"
| "parse_of p m statement = GeneralParser_parse (type_of p) m statement"

definition PARSER_REGISTRY :: "parser list" where
  "PARSER_REGISTRY = [SchemaParser, ExtensionParser, TypeParser, DomainParser, FunctionParser,
     ProcedureParser, TableParser, SequenceParser, ViewParser, ConstraintParser, IndexParser]"

fun parseWith :: "parser list \<Rightarrow> string \<Rightarrow> ParsedStatement option" where
  \<comment> \<open>the loop of \<open>parseStatement\<close> over the registry\<close>
  "parseWith [] statement = None"
| "parseWith (p # ps) statement =
     (case exec (flags_of p) (regex_of p) statement of
        Some m \<Rightarrow> Some (parse_of p m statement)
      | None \<Rightarrow> parseWith ps statement)"

definition parseStatement :: "string \<Rightarrow> ParsedStatement option" where
  "parseStatement statement = parseWith PARSER_REGISTRY statement"

section \<open>The parse orchestrator, before attachment\<close>

fun join :: "string \<Rightarrow> string list \<Rightarrow> string" where
  \<comment> \<open>\<open>xs.join(sep)\<close>\<close>
  "join sep [] = []"
| "join sep [x] = x"
| "join sep (x # y # ys) = x @ sep @ join sep (y # ys)"

definition toObject :: "DatabaseObjectType \<Rightarrow> ParsedStatement \<Rightarrow> DatabaseObject" where
  \<comment> \<open>the object literals pushed to \<open>objects\<close>; a schema object gets no \<open>qualifiedName\<close>\<close>
  "toObject t parsed =
     \<lparr>type = t, schema = p_schema parsed, name = p_name parsed,
      qualifiedName = (if t = Schema then None else p_qualifiedName parsed),
      definition' = p_definition parsed,
      sequences = None, constraints = None, indexes = None\<rparr>"

text \<open>
  The body of the loop \<open>for (const statement of statements)\<close> on the three local arrays
  \<open>objects\<close>, \<open>attachableStatements\<close> and \<open>residual\<close>.
\<close>

definition classifyStatement ::
  "DatabaseObject list \<times> ParsedStatement list \<times> string list \<Rightarrow> string
     \<Rightarrow> DatabaseObject list \<times> ParsedStatement list \<times> string list" where
  "classifyStatement acc statement =
     (case acc of (objs, attachableStatements, res) \<Rightarrow>
      let trimmed = trim statement in
      if trimmed = [] then acc
      else case parseStatement trimmed of
        Some parsed \<Rightarrow>
          (let (objs', attachableStatements') =
                 (case p_type parsed of
                    Terminal t \<Rightarrow> (objs @ [toObject t parsed], attachableStatements)
                  | _ \<Rightarrow> (objs, attachableStatements @ [parsed]))
           in case p_residual parsed of
                Some r \<Rightarrow> (objs', attachableStatements', if r \<noteq> [] then res @ [r] else res)
              | None \<Rightarrow> (objs', attachableStatements', res))
      | None \<Rightarrow> (objs, attachableStatements, res @ [statement]))"

definition classifyAll ::
  "string \<Rightarrow> DatabaseObject list \<times> ParsedStatement list \<times> string list" where
  "classifyAll content = foldl classifyStatement ([], [], []) (splitIntoStatements content Semicolon)"

subsection \<open>Where the text of a statement goes\<close>

text \<open>
  One iteration of the loop hands the text of its statement on in pieces: what precedes the
  match to \<open>residual\<close>, the rest to \<open>objects\<close> or to \<open>attachableStatements\<close>; a statement that no
  parser matches goes to \<open>residual\<close> whole. \<open>blackOf\<close> is a text without its white space.
\<close>

datatype piece = ObjectText string | AttachableText string | ResidualText string

fun text_of :: "piece \<Rightarrow> string" where
  "text_of (ObjectText t) = t"
| "text_of (AttachableText t) = t"
| "text_of (ResidualText t) = t"

fun objectTexts :: "piece list \<Rightarrow> string list" where
  "objectTexts [] = []"
| "objectTexts (ObjectText t # ps) = t # objectTexts ps"
| "objectTexts (p # ps) = objectTexts ps"

fun attachableTexts :: "piece list \<Rightarrow> string list" where
  "attachableTexts [] = []"
| "attachableTexts (AttachableText t # ps) = t # attachableTexts ps"
| "attachableTexts (p # ps) = attachableTexts ps"

fun residualTexts :: "piece list \<Rightarrow> string list" where
  "residualTexts [] = []"
| "residualTexts (ResidualText t # ps) = t # residualTexts ps"
| "residualTexts (p # ps) = residualTexts ps"

definition blackOf :: "string \<Rightarrow> string" where
  "blackOf s = filter (\<lambda>c. \<not> isWhiteSpace c) s"

lemma concat_splitIntoStatements: "concat (splitIntoStatements content sep) = content"
proof -
  let ?init = "\<lparr>statements = [], currentStatement = [], inDashComment = False,
                 inBlockComment = False, inSingleQuote = False, inDoubleQuote = False\<rparr>"
  have "concat (statements (scan sep ?init content)) @ currentStatement (scan sep ?init content)
      = content"
    using scan_concat[of sep ?init content] by simp
  then show ?thesis
    unfolding splitIntoStatements_def by (auto simp: Let_def)
qed

lemma objectTexts_append: "objectTexts (ps @ qs) = objectTexts ps @ objectTexts qs"
  by (induction ps rule: objectTexts.induct) simp_all

lemma attachableTexts_append: "attachableTexts (ps @ qs) = attachableTexts ps @ attachableTexts qs"
  by (induction ps rule: attachableTexts.induct) simp_all

lemma residualTexts_append: "residualTexts (ps @ qs) = residualTexts ps @ residualTexts qs"
  by (induction ps rule: residualTexts.induct) simp_all

lemma blackOf_append: "blackOf (s @ t) = blackOf s @ blackOf t"
  by (simp add: blackOf_def)

lemma blackOf_dropWhile: "blackOf (dropWhile isWhiteSpace s) = blackOf s"
  by (induction s) (simp_all add: blackOf_def)

lemma blackOf_rev: "blackOf (rev s) = rev (blackOf s)"
  by (simp add: blackOf_def rev_filter)

lemma blackOf_trim: "blackOf (trim s) = blackOf s"
proof -
  have "blackOf (trim s) = rev (blackOf (dropWhile isWhiteSpace (rev (dropWhile isWhiteSpace s))))"
    by (simp add: blackOf_rev)
  also have "\<dots> = rev (blackOf (rev (dropWhile isWhiteSpace s)))"
    by (simp only: blackOf_dropWhile)
  also have "\<dots> = blackOf (dropWhile isWhiteSpace s)"
    by (simp add: blackOf_rev)
  finally show ?thesis by (simp add: blackOf_dropWhile)
qed

lemma parse_of_text:
  "p_definition (parse_of p m s) = fst (extractDefinition m s)"
  "p_residual (parse_of p m s) = snd (extractDefinition m s)"
  by (cases p; simp add: GeneralParser_parse_def Let_def)+

lemma parseWith_Some:
  "parseWith ps s = Some parsed \<Longrightarrow>
     \<exists>p m. p \<in> set ps \<and> exec (flags_of p) (regex_of p) s = Some m \<and> parsed = parse_of p m s"
  by (induction ps) (auto split: option.splits)

lemma parseStatement_text:
  assumes "parseStatement s = Some parsed"
  shows "(case p_residual parsed of None \<Rightarrow> [] | Some r \<Rightarrow> r) @ p_definition parsed = s"
proof -
  from parseWith_Some[OF assms[unfolded parseStatement_def]]
  obtain p m where "parsed = parse_of p m s" by blast
  then show ?thesis
    by (simp add: parse_of_text extractDefinition_def)
qed

lemma trim_boundaries:
  "\<exists>a b. list_all isWhiteSpace a \<and> list_all isWhiteSpace b \<and> s = a @ trim s @ b"
proof -
  define u where "u = dropWhile isWhiteSpace s"
  define a where "a = takeWhile isWhiteSpace s"
  define b where "b = rev (takeWhile isWhiteSpace (rev u))"
  have s: "s = a @ u" by (simp add: a_def u_def)
  have "rev (dropWhile isWhiteSpace (rev u)) @ rev (takeWhile isWhiteSpace (rev u))
      = rev (takeWhile isWhiteSpace (rev u) @ dropWhile isWhiteSpace (rev u))"
    by (simp only: rev_append)
  also have "\<dots> = rev (rev u)" by (simp only: takeWhile_dropWhile_id)
  also have "\<dots> = u" by simp
  finally have u: "u = rev (dropWhile isWhiteSpace (rev u)) @ b"
    by (simp add: b_def)
  have t: "trim s = rev (dropWhile isWhiteSpace (rev u))" by (simp add: u_def)
  have "list_all isWhiteSpace a"
    unfolding a_def list_all_iff by (auto dest: set_takeWhileD)
  moreover have "list_all isWhiteSpace b"
    unfolding b_def list_all_iff by (auto dest: set_takeWhileD)
  moreover have "s = a @ trim s @ b"
    using s u t by simp
  ultimately show ?thesis by blast
qed

lemma classifyStatement_pieces_exact:
  "\<exists>ps. map definition' (fst (classifyStatement (objs, atts, res) statement))
            = map definition' objs @ objectTexts ps
      \<and> map p_definition (fst (snd (classifyStatement (objs, atts, res) statement)))
            = map p_definition atts @ attachableTexts ps
      \<and> snd (snd (classifyStatement (objs, atts, res) statement)) = res @ residualTexts ps
      \<and> concat (map text_of ps)
          = (if trim statement \<noteq> [] \<and> parseStatement (trim statement) = None
             then statement else trim statement)"
proof (cases "trim statement = []")
  case True
  then show ?thesis
    by (intro exI[of _ "[]"]) (simp add: classifyStatement_def del: trim.simps)
next
  case False
  show ?thesis
  proof (cases "parseStatement (trim statement)")
    case None
    with False show ?thesis
      by (intro exI[of _ "[ResidualText statement]"]) (simp add: classifyStatement_def del: trim.simps)
  next
    case (Some parsed)
    let ?d = "p_definition parsed"
    let ?main = "(case p_type parsed of Terminal t \<Rightarrow> ObjectText ?d | _ \<Rightarrow> AttachableText ?d)"
    let ?pre = "(case p_residual parsed of None \<Rightarrow> []
                 | Some r \<Rightarrow> if r \<noteq> [] then [ResidualText r] else [])"
    have "concat (map text_of (?pre @ [?main]))
        = (case p_residual parsed of None \<Rightarrow> [] | Some r \<Rightarrow> r) @ ?d"
      by (cases "p_type parsed"; cases "p_residual parsed"; simp)
    also have "\<dots> = trim statement"
      using parseStatement_text[OF Some] by (simp del: trim.simps)
    finally have b: "concat (map text_of (?pre @ [?main]))
        = (if trim statement \<noteq> [] \<and> parseStatement (trim statement) = None
             then statement else trim statement)"
      using Some by (simp del: trim.simps)
    show ?thesis
      apply (intro exI[of _ "?pre @ [?main]"] conjI)
         apply (use False Some in \<open>cases "p_type parsed"; cases "p_residual parsed";
            simp add: classifyStatement_def toObject_def objectTexts_append del: trim.simps\<close>)
        apply (use False Some in \<open>cases "p_type parsed"; cases "p_residual parsed";
            simp add: classifyStatement_def attachableTexts_append del: trim.simps\<close>)
       apply (use False Some in \<open>cases "p_type parsed"; cases "p_residual parsed";
            simp add: classifyStatement_def residualTexts_append del: trim.simps\<close>)
      apply (rule b)
      done
  qed
qed

lemma classify_fold_pieces_exact:
  "\<exists>pss. map definition' (fst (foldl classifyStatement (objs, atts, res) stmts))
            = map definition' objs @ objectTexts (concat pss)
      \<and> map p_definition (fst (snd (foldl classifyStatement (objs, atts, res) stmts)))
            = map p_definition atts @ attachableTexts (concat pss)
      \<and> snd (snd (foldl classifyStatement (objs, atts, res) stmts)) = res @ residualTexts (concat pss)
      \<and> list_all2 (\<lambda>ps statement. concat (map text_of ps)
            = (if trim statement \<noteq> [] \<and> parseStatement (trim statement) = None
               then statement else trim statement)) pss stmts"
proof (induction stmts arbitrary: objs atts res)
  case Nil
  show ?case by (intro exI[of _ "[]"]) simp
next
  case (Cons statement stmts)
  obtain objs1 atts1 res1 where c: "classifyStatement (objs, atts, res) statement = (objs1, atts1, res1)"
    by (cases "classifyStatement (objs, atts, res) statement") auto
  from classifyStatement_pieces_exact[of objs atts res statement] c
  obtain ps where ps: "map definition' objs1 = map definition' objs @ objectTexts ps"
    "map p_definition atts1 = map p_definition atts @ attachableTexts ps"
    "res1 = res @ residualTexts ps"
    "concat (map text_of ps) = (if trim statement \<noteq> [] \<and> parseStatement (trim statement) = None
               then statement else trim statement)"
    by auto
  from Cons.IH[of objs1 atts1 res1]
  obtain qss where qs: "map definition' (fst (foldl classifyStatement (objs1, atts1, res1) stmts))
            = map definition' objs1 @ objectTexts (concat qss)"
      "map p_definition (fst (snd (foldl classifyStatement (objs1, atts1, res1) stmts)))
            = map p_definition atts1 @ attachableTexts (concat qss)"
      "snd (snd (foldl classifyStatement (objs1, atts1, res1) stmts)) = res1 @ residualTexts (concat qss)"
      "list_all2 (\<lambda>ps statement. concat (map text_of ps)
            = (if trim statement \<noteq> [] \<and> parseStatement (trim statement) = None
               then statement else trim statement)) qss stmts"
    by blast
  have "foldl classifyStatement (objs, atts, res) (statement # stmts)
      = foldl classifyStatement (objs1, atts1, res1) stmts"
    by (simp add: c)
  with ps qs show ?case
    by (intro exI[of _ "ps # qss"])
       (simp add: objectTexts_append attachableTexts_append residualTexts_append del: trim.simps)
qed

lemma pieces_black:
  assumes "list_all2 (\<lambda>ps statement. concat (map text_of ps)
            = (if trim statement \<noteq> [] \<and> parseStatement (trim statement) = None
               then statement else trim statement)) pss stmts"
  shows "blackOf (concat (map text_of (concat pss))) = blackOf (concat stmts)"
  using assms
proof (induction pss stmts rule: list_all2_induct)
  case Nil
  show ?case by simp
next
  case (Cons ps pss statement stmts)
  from Cons.hyps(1) have "blackOf (concat (map text_of ps)) = blackOf statement"
    using blackOf_trim[of statement] by (simp del: trim.simps split: if_splits)
  with Cons.IH show ?case by (simp add: blackOf_append)
qed

lemma pieces_boundaries:
  assumes "list_all2 (\<lambda>ps statement. concat (map text_of ps)
            = (if trim statement \<noteq> [] \<and> parseStatement (trim statement) = None
               then statement else trim statement)) pss stmts"
  shows "list_all2 (\<lambda>ps statement. \<exists>a b. list_all isWhiteSpace a \<and> list_all isWhiteSpace b
            \<and> statement = a @ concat (map text_of ps) @ b) pss stmts"
  using assms
proof (rule list_all2_mono)
  fix ps statement
  assume e: "concat (map text_of ps)
            = (if trim statement \<noteq> [] \<and> parseStatement (trim statement) = None
               then statement else trim statement)"
  show "\<exists>a b. list_all isWhiteSpace a \<and> list_all isWhiteSpace b
            \<and> statement = a @ concat (map text_of ps) @ b"
  proof (cases "trim statement \<noteq> [] \<and> parseStatement (trim statement) = None")
    case True
    with e have "statement = [] @ concat (map text_of ps) @ []" by (simp del: trim.simps)
    then show ?thesis by (intro exI[of _ "[]"]) simp
  next
    case False
    with e have "concat (map text_of ps) = trim statement" by (simp del: trim.simps)
    with trim_boundaries[of statement] show ?thesis by (simp del: trim.simps)
  qed
qed

section \<open>The attachment engine\<close>

datatype error = TypeError | UnmodelledPattern string

fun lastOcc :: "char \<Rightarrow> string \<Rightarrow> nat \<Rightarrow> int \<Rightarrow> int" where
  "lastOcc c [] i found = found"
| "lastOcc c (x # xs) i found = lastOcc c xs (Suc i) (if x = c then int i else found)"

definition lastIndexOf :: "char \<Rightarrow> string \<Rightarrow> int option \<Rightarrow> int" where
  \<comment> \<open>\<open>s.lastIndexOf(c, position)\<close>: the last index of \<open>c\<close> at or before \<open>position\<close> clamped to
      \<open>[0, length - 1]\<close>, or \<open>-1\<close>; \<open>None\<close> is a call without \<open>position\<close>\<close>
  "lastIndexOf c s position =
     (let start = (case position of None \<Rightarrow> int (length s) - 1
                   | Some pos \<Rightarrow> min (max pos 0) (int (length s) - 1))
      in lastOcc c (take (nat (start + 1)) s) 0 (- 1))"

fun splitOn :: "char \<Rightarrow> string \<Rightarrow> string list" where
  \<comment> \<open>\<open>s.split(c)\<close>\<close>
  "splitOn c [] = [[]]"
| "splitOn c (x # xs) =
     (if x = c then [] # splitOn c xs
      else (case splitOn c xs of [] \<Rightarrow> [[x]] | l # ls \<Rightarrow> (x # l) # ls))"

definition replaceFirst :: "flags \<Rightarrow> regex \<Rightarrow> (rmatch \<Rightarrow> string) \<Rightarrow> string \<Rightarrow> string" where
  \<comment> \<open>\<open>s.replace(re, f)\<close> for a pattern without the \<open>g\<close> flag\<close>
  "replaceFirst fl r f s =
     (case exec fl r s of None \<Rightarrow> s
      | Some m \<Rightarrow> take (index m) s @ f m @ drop (index m + length (matched m)) s)"

function replaceAll_from ::
  "flags \<Rightarrow> regex \<Rightarrow> (rmatch \<Rightarrow> string) \<Rightarrow> nat \<Rightarrow> string \<Rightarrow> string" where
  "replaceAll_from fl r f p s =
     (case exec_from fl r p s of None \<Rightarrow> s
      | Some m \<Rightarrow>
          if matched m = []
          then take (index m - p) s @ f m @
                 (case drop (index m - p) s of [] \<Rightarrow> []
                  | c # cs \<Rightarrow> c # replaceAll_from fl r f (Suc (index m)) cs)
          else take (index m - p) s @ f m @
                 replaceAll_from fl r f (index m + length (matched m))
                   (drop (index m - p + length (matched m)) s))"
  by pat_completeness auto
termination
proof (relation "measure (\<lambda>(fl, r, f, p, s). length s)")
  show "wf (measure (\<lambda>(fl :: flags, r :: regex, f :: rmatch \<Rightarrow> string, p :: nat, s :: string). length s))"
    by simp
next
  fix fl :: flags and r :: regex and f :: "rmatch \<Rightarrow> string" and p :: nat and s cs :: string
    and m :: rmatch and c :: char
  assume "drop (index m - p) s = c # cs"
  then have "length (c # cs) \<le> length s"
    by (metis diff_le_self length_drop)
  then show "((fl, r, f, Suc (index m), cs), (fl, r, f, p, s)) \<in> measure (\<lambda>(fl, r, f, p, s). length s)"
    by simp
next
  fix fl :: flags and r :: regex and f :: "rmatch \<Rightarrow> string" and p :: nat and s :: string
    and m :: rmatch
  assume m: "exec_from fl r p s = Some m" and ne: "matched m \<noteq> []"
  from exec_from_span[OF m] obtain i k where "i + k \<le> length s" "matched m = take k (drop i s)"
    by blast
  with ne have "s \<noteq> []" by auto
  with ne show "((fl, r, f, index m + length (matched m), drop (index m - p + length (matched m)) s),
         (fl, r, f, p, s)) \<in> measure (\<lambda>(fl, r, f, p, s). length s)"
    by simp
qed

definition replaceAll :: "flags \<Rightarrow> regex \<Rightarrow> (rmatch \<Rightarrow> string) \<Rightarrow> string \<Rightarrow> string" where
  \<comment> \<open>\<open>s.replace(re, f)\<close> for a pattern with the \<open>g\<close> flag\<close>
  "replaceAll fl r f s = replaceAll_from fl r f 0 s"

subsection \<open>Indentation\<close>

datatype indent_type = space | tab

record indentation =
  indent_type :: indent_type
  amount :: nat
  indent :: string

fun count_indent :: "(string \<times> nat) list \<Rightarrow> string \<Rightarrow> (string \<times> nat) list" where
  \<comment> \<open>\<open>freq[ws] = (freq[ws] || 0) + 1\<close>, the keys in the order they were first set\<close>
  "count_indent [] ws = [(ws, 1)]"
| "count_indent ((k, n) # kns) ws =
     (if k = ws then (k, Suc n) # kns else (k, n) # count_indent kns ws)"

fun mostUsed :: "(string \<times> nat) list \<Rightarrow> string \<times> nat" where
  \<comment> \<open>the first entry after the stable sort by descending count: the first of the entries
      with the greatest count\<close>
  "mostUsed [] = ([], 0)"
| "mostUsed [kn] = kn"
| "mostUsed (kn # kns) = (if snd (mostUsed kns) > snd kn then mostUsed kns else kn)"

fun reduce_gcd :: "nat list \<Rightarrow> nat" where
  \<comment> \<open>\<open>counts.reduce(gcd)\<close> on a list that is not empty\<close>
  "reduce_gcd [] = 0"
| "reduce_gcd (n # ns) = foldl gcd n ns"

definition detectIndent :: "string \<Rightarrow> indentation" where
  "detectIndent string =
     (let indents = filter (\<lambda>ws. ws \<noteq> [])
                      (map (takeWhile (\<lambda>c. c = CHR '' '' \<or> c = CHR 0x09)) (splitOn (CHR 0x0A) string))
      in if indents = [] then \<lparr>indent_type = space, amount = 0, indent = []\<rparr>
         else
           let (mostUsedIndent, mostUsedCount) = mostUsed (foldl count_indent [] indents) in
           if 2 * mostUsedCount > length indents
           then \<lparr>indent_type = (if hd mostUsedIndent = CHR 0x09 then tab else space),
                 amount = length mostUsedIndent, indent = mostUsedIndent\<rparr>
           else
             let spaceCounts = map length (filter (\<lambda>ws. hd ws = CHR '' '') indents) in
             if spaceCounts \<noteq> []
             then \<lparr>indent_type = space, amount = reduce_gcd spaceCounts,
                   indent = replicate (reduce_gcd spaceCounts) (CHR '' '')\<rparr>
             else
               let tabCounts = map length (filter (\<lambda>ws. hd ws = CHR 0x09) indents) in
               \<lparr>indent_type = tab, amount = reduce_gcd tabCounts,
                indent = replicate (reduce_gcd tabCounts) (CHR 0x09)\<rparr>)"

subsection \<open>Constraints\<close>

definition CONSTRAINT_DEFINITION_REGEX :: regex where
  \<comment> \<open>\<open>ADD\s+CONSTRAINT\s+(IDENTIFIER)\s+(.+);[^;]*$\<close>, flags \<open>iu\<close>\<close>
  "CONSTRAINT_DEFINITION_REGEX = Cat [Lit ''ADD'', ws1, Lit ''CONSTRAINT'', ws1,
     Grp 1 IDENTIFIER_PATTERN, ws1, Grp 2 (Plus Dot), Lit '';'', Star (NSet [Ch CHR '';'']), Eol]"

fun skipWhitespaceBack :: "string \<Rightarrow> nat \<Rightarrow> nat" where
  \<comment> \<open>the loop \<open>while (lastContentIndex >= 0 && /\s/.test(s[lastContentIndex])) lastContentIndex--\<close>,
      on \<open>lastContentIndex + 1\<close>\<close>
  "skipWhitespaceBack s 0 = 0"
| "skipWhitespaceBack s (Suc i) = (if isWhiteSpace (s ! i) then skipWhitespaceBack s i else Suc i)"

definition constraintDefinition :: "ParsedStatement \<Rightarrow> string" where
  \<comment> \<open>what the loop over \<open>constraints\<close> pushes to \<open>constraintDefinitions\<close>\<close>
  "constraintDefinition constraint =
     (case exec iu CONSTRAINT_DEFINITION_REGEX (p_definition constraint) of
        Some constraintMatch \<Rightarrow>
          ''CONSTRAINT '' @ str (grp constraintMatch 1) @ '' '' @ str (grp constraintMatch 2)
      | None \<Rightarrow> p_definition constraint)"

definition attachConstraintsToTable :: "string \<Rightarrow> ParsedStatement list \<Rightarrow> string" where
  "attachConstraintsToTable tableDefinition cs =
     (let lastParenIndex = lastIndexOf (CHR '')'') tableDefinition
                             (Some (lastIndexOf (CHR '';'') tableDefinition None))
      in if lastParenIndex \<noteq> - 1 then
           (let constraintDefinitions = map constraintDefinition cs in
            if constraintDefinitions \<noteq> [] then
              (let lastContentIndex1 = skipWhitespaceBack tableDefinition (nat lastParenIndex);
                   indentedSeparator = [CHR '','', CHR 0x0A] @ indent (detectIndent tableDefinition);
                   constraintText = indentedSeparator @ join indentedSeparator constraintDefinitions
               in take lastContentIndex1 tableDefinition @ constraintText @ [CHR 0x0A]
                    @ drop (nat lastParenIndex) tableDefinition)
            else tableDefinition)
         else tableDefinition)"

subsection \<open>Sequences\<close>

definition TABLE_HEADER_REGEX :: regex where
  \<comment> \<open>\<open>CREATE\s+(?:UNLOGGED\s+)?TABLE\s+(?:(IDENTIFIER)\.)?(IDENTIFIER)\s*(?=\()\<close>, flags \<open>iu\<close>\<close>
  "TABLE_HEADER_REGEX = Cat [Lit ''CREATE'', ws1, Opt (Cat [Lit ''UNLOGGED'', ws1]),
     Lit ''TABLE'', ws1, SCHEMA_QUALIFIED_OBJECT_PATTERN 1 2, ws0, Ahead (Lit ''('')]"

definition SEQUENCE_HEADER_REGEX :: regex where
  \<comment> \<open>\<open>ALTER\s+TABLE\s+(?:ONLY\s+)?(?:(IDENTIFIER)\.)?(IDENTIFIER)\s+ALTER\s+(?:COLUMN\s+)?IDENTIFIER\s+ADD\s+\<close>,
      flags \<open>iu\<close>\<close>
  "SEQUENCE_HEADER_REGEX = Cat [Lit ''ALTER'', ws1, Lit ''TABLE'', ws1,
     Opt (Cat [Lit ''ONLY'', ws1]), SCHEMA_QUALIFIED_OBJECT_PATTERN 1 2,
     ws1, Lit ''ALTER'', ws1, Opt (Cat [Lit ''COLUMN'', ws1]), IDENTIFIER_PATTERN,
     ws1, Lit ''ADD'', ws1]"

definition UNSAFE_REGEX_CHARACTERS_REGEX :: regex where
  \<comment> \<open>\<open>/[-/\\^$*+?.()|[\]{}]/\<close>: no \<open>g\<close> flag\<close>
  "UNSAFE_REGEX_CHARACTERS_REGEX = Set [Ch CHR ''-'', Ch CHR ''/'', Ch (CHR 0x5C), Ch CHR ''^'',
     Ch CHR ''$'', Ch CHR ''*'', Ch CHR ''+'', Ch CHR ''?'', Ch CHR ''.'', Ch CHR ''('', Ch CHR '')'',
     Ch CHR ''|'', Ch CHR ''['', Ch CHR '']'', Ch CHR ''{'', Ch CHR ''}'']"

definition NOT_NULL_REGEX :: regex where
  \<comment> \<open>\<open>/\s+(?:NOT\s+)?NULL\s*$/i\<close>\<close>
  "NOT_NULL_REGEX = Cat [ws1, Opt (Cat [Lit ''NOT'', ws1]), Lit ''NULL'', ws0, Eol]"

definition TRAILING_SEMICOLON_REGEX :: regex where
  \<comment> \<open>\<open>/\s*;\s*$/\<close>\<close>
  "TRAILING_SEMICOLON_REGEX = Cat [ws0, Lit '';'', ws0, Eol]"

definition COLLAPSE_REGEX :: regex where
  \<comment> \<open>\<open>/\s{2,}|\n+/g\<close>\<close>
  "COLLAPSE_REGEX = Alt (Cat [Set [ClsS], Plus (Set [ClsS])]) (Plus (Lit [CHR 0x0A]))"

definition BRACKET_SPACE_REGEX :: regex where
  \<comment> \<open>\<open>/(\(\s+|\s+\))+/g\<close>\<close>
  "BRACKET_SPACE_REGEX = Plus (Grp 1 (Alt (Cat [Lit ''('', ws1]) (Cat [ws1, Lit '')''])))"

definition TRAILING_COMMA_REGEX :: regex where
  \<comment> \<open>\<open>/[,\s]+$/\<close>\<close>
  "TRAILING_COMMA_REGEX = Cat [Plus (Set [Ch CHR '','', ClsS]), Eol]"

text \<open>
  \<open>getTableColumnRegex\<close> builds the source of a pattern from the column name and hands it to
  \<open>new RegExp\<close>. \<open>compilePattern\<close> reads the part of the pattern syntax that such a source can be
  made of when the name holds no second unsafe character that groups, brackets, braces,
  alternates, repeats or escapes: literal characters, \<open>.\<close>, \<open>^\<close>, \<open>$\<close>, \<open>\s\<close>, an escaped unsafe
  character, and \<open>*\<close>, \<open>+\<close> behind \<open>\s\<close>. Every other source is \<open>None\<close>: JavaScript either
  rejects it with a SyntaxError or matches it by rules outside this model.
\<close>

definition parseAtom :: "char \<Rightarrow> string \<Rightarrow> (regex \<times> bool \<times> nat) option" where
  \<comment> \<open>the atom that starts with \<open>c\<close>, whether a quantifier may follow it, and how many characters
      behind \<open>c\<close> belong to it\<close>
  "parseAtom c cs =
     (if c = CHR 0x5C then
        (case cs of
           [] \<Rightarrow> None
         | e # _ \<Rightarrow>
             if e = CHR ''s'' then Some (Set [ClsS], True, 1)
             else if e \<in> set ''-/^$*+?.()|[]{}'' \<or> e = CHR 0x5C then Some (Lit [e], True, 1)
             else None)
      else if c = CHR ''.'' then Some (Dot, True, 0)
      else if c = CHR ''^'' then Some (Bol, False, 0)
      else if c = CHR ''$'' then Some (Eol, False, 0)
      else if c \<in> set ''*+?()|[]{}'' then None
      else Some (Lit [c], True, 0))"

definition quantify :: "char \<Rightarrow> regex \<Rightarrow> regex" where
  "quantify q a = (if q = CHR ''*'' then Star a else if q = CHR ''+'' then Plus a else Opt a)"

function compilePattern :: "string \<Rightarrow> regex list option" where
  "compilePattern [] = Some []"
| "compilePattern (c # cs) =
     (case parseAtom c cs of
        None \<Rightarrow> None
      | Some (a, quantifiable, n) \<Rightarrow>
          (case drop n cs of
             [] \<Rightarrow> Some [a]
           | q # cs' \<Rightarrow>
               if q \<in> set ''*+?'' then
                 (if \<not> quantifiable then None
                  else case cs' of
                    [] \<Rightarrow> Some [quantify q a]
                  | q' # _ \<Rightarrow>
                      if q' \<in> set ''*+?'' then None
                      else map_option ((#) (quantify q a)) (compilePattern cs'))
               else map_option ((#) a) (compilePattern (q # cs'))))"
  by pat_completeness auto
termination
proof (relation "measure length")
  show "wf (measure (length :: string \<Rightarrow> nat))" by simp
next
  fix c :: char and cs cs' :: string and n :: nat and q :: char
  assume "drop n cs = q # cs'"
  then have "length (q # cs') \<le> length cs" by (metis diff_le_self length_drop)
  then show "(cs', c # cs) \<in> measure length" by simp
next
  fix c :: char and cs cs' :: string and n :: nat and q :: char
  assume "drop n cs = q # cs'"
  then have "length (q # cs') \<le> length cs" by (metis diff_le_self length_drop)
  then show "(q # cs', c # cs) \<in> measure length" by simp
qed

definition getTableColumnRegex :: "string option \<Rightarrow> error + regex" where
  "getTableColumnRegex column =
     (case column of
        None \<Rightarrow> Inl TypeError
      | Some col \<Rightarrow>
          (let pattern = [CHR ''^'', CHR 0x5C, CHR ''s'', CHR ''*'']
                 @ replaceFirst noflags UNSAFE_REGEX_CHARACTERS_REGEX (\<lambda>m. CHR 0x5C # matched m) col
                 @ [CHR 0x5C, CHR ''s'', CHR ''+'']
           in case compilePattern pattern of
                None \<Rightarrow> Inl (UnmodelledPattern pattern)
              | Some rs \<Rightarrow> Inr (Cat rs)))"

record columnDefinition =
  cd_definition :: string
  startPos :: nat
  endPos :: nat

fun findIndex :: "('a \<Rightarrow> bool) \<Rightarrow> 'a list \<Rightarrow> nat option" where
  \<comment> \<open>\<open>xs.findIndex(f)\<close>; \<open>None\<close> is \<open>-1\<close>\<close>
  "findIndex f [] = None"
| "findIndex f (x # xs) = (if f x then Some 0 else map_option Suc (findIndex f xs))"

definition findTableColumnDefinition ::
  "string \<Rightarrow> string option \<Rightarrow> error + columnDefinition option" where
  "findTableColumnDefinition tableDefinition column =
     (case exec iu TABLE_HEADER_REGEX tableDefinition of
        None \<Rightarrow> Inr None
      | Some tableHeaderMatch \<Rightarrow>
          (let firstParenIndex = index tableHeaderMatch + length (matched tableHeaderMatch);
               lastParenIndex = lastIndexOf (CHR '')'') tableDefinition
                                  (Some (lastIndexOf (CHR '';'') tableDefinition None))
           in if lastParenIndex = - 1 then Inr None
              else
                let tableContents = take (nat lastParenIndex - (firstParenIndex + 1))
                                      (drop (firstParenIndex + 1) tableDefinition);
                    stmts = splitIntoStatements tableContents Comma
                in case getTableColumnRegex column of
                     Inl e \<Rightarrow> Inl e
                   | Inr columnRegex \<Rightarrow>
                       (case findIndex (\<lambda>statement. exec noflags columnRegex statement \<noteq> None) stmts of
                          None \<Rightarrow> Inr None
                        | Some columnStatementIndex \<Rightarrow>
                            (let definition0 = replaceFirst noflags TRAILING_COMMA_REGEX (\<lambda>m. [])
                                                 (stmts ! columnStatementIndex);
                                 definitionLength = length definition0;
                                 startPos0 = firstParenIndex + 1
                                   + sum_list (map length (take columnStatementIndex stmts));
                                 endPos0 = startPos0 + definitionLength;
                                 definition1 = trimStart definition0
                             in Inr (Some \<lparr>cd_definition = definition1,
                                   startPos = startPos0 + (definitionLength - length definition1),
                                   endPos = endPos0\<rparr>)))))"

definition sequenceDefinition :: "string \<Rightarrow> rmatch \<Rightarrow> string" where
  \<comment> \<open>the text that is spliced in: what follows the header, without the terminating semicolon,
      on one line, with no white space inside the brackets\<close>
  "sequenceDefinition definition0 sequenceHeaderMatch =
     replaceAll noflags BRACKET_SPACE_REGEX (\<lambda>m. trim (matched m))
       (replaceAll noflags COLLAPSE_REGEX (\<lambda>m. '' '')
         (replaceFirst noflags TRAILING_SEMICOLON_REGEX (\<lambda>m. [])
           (drop (index sequenceHeaderMatch + length (matched sequenceHeaderMatch)) definition0)))"

definition attachSequence :: "string \<Rightarrow> ParsedStatement \<Rightarrow> error + string" where
  \<comment> \<open>the body of the loop of \<open>attachSequencesToTable\<close>: the new \<open>modifiedContent\<close>\<close>
  "attachSequence modifiedContent sequence =
     (case findTableColumnDefinition modifiedContent (p_column sequence) of
        Inl e \<Rightarrow> Inl e
      | Inr None \<Rightarrow> Inr modifiedContent
      | Inr (Some columnDefinition) \<Rightarrow>
          (let columnDefinitionEndPos =
                 (case exec \<lparr>ignoreCase = True, dotAll = False\<rparr> NOT_NULL_REGEX
                         (cd_definition columnDefinition) of
                    Some notNullMatch \<Rightarrow>
                      endPos columnDefinition
                        - (length (cd_definition columnDefinition) - index notNullMatch)
                  | None \<Rightarrow> endPos columnDefinition)
           in case exec iu SEQUENCE_HEADER_REGEX (p_definition sequence) of
                None \<Rightarrow> Inr modifiedContent
              | Some sequenceHeaderMatch \<Rightarrow>
                  Inr (take columnDefinitionEndPos modifiedContent @ '' ''
                       @ sequenceDefinition (p_definition sequence) sequenceHeaderMatch
                       @ drop columnDefinitionEndPos modifiedContent)))"

fun attachSequencesToTable :: "string \<Rightarrow> ParsedStatement list \<Rightarrow> error + string" where
  "attachSequencesToTable modifiedContent [] = Inr modifiedContent"
| "attachSequencesToTable modifiedContent (sequence # seqs) =
     (case attachSequence modifiedContent sequence of
        Inl e \<Rightarrow> Inl e
      | Inr modifiedContent' \<Rightarrow> attachSequencesToTable modifiedContent' seqs)"

subsection \<open>All attachments\<close>

record attachables =
  a_sequences :: "ParsedStatement list"
  a_constraints :: "ParsedStatement list"
  a_indexes :: "ParsedStatement list"

definition groupAttachable ::
  "(string \<rightharpoonup> attachables) \<Rightarrow> ParsedStatement \<Rightarrow> (string \<rightharpoonup> attachables)" where
  \<comment> \<open>the reducer of \<open>groupAttachablesByTable\<close>\<close>
  "groupAttachable acc statement =
     (let qualifiedTable = makeQualifiedName (p_schema statement) (p_table statement);
          g = (case acc qualifiedTable of
                 None \<Rightarrow> \<lparr>a_sequences = [], a_constraints = [], a_indexes = []\<rparr>
               | Some g \<Rightarrow> g)
      in acc(qualifiedTable \<mapsto>
           (case p_type statement of
              Sequence \<Rightarrow> g\<lparr>a_sequences := a_sequences g @ [statement]\<rparr>
            | Constraint \<Rightarrow> g\<lparr>a_constraints := a_constraints g @ [statement]\<rparr>
            | Index \<Rightarrow> g\<lparr>a_indexes := a_indexes g @ [statement]\<rparr>
            | Terminal t \<Rightarrow> g)))"

definition groupAttachablesByTable :: "ParsedStatement list \<Rightarrow> (string \<rightharpoonup> attachables)" where
  "groupAttachablesByTable attachableStatements = foldl groupAttachable Map.empty attachableStatements"

definition attachToObject :: "(string \<rightharpoonup> attachables) \<Rightarrow> DatabaseObject \<Rightarrow> error + DatabaseObject" where
  \<comment> \<open>the body of the loop of \<open>attachObjectsToTables\<close>: the object after it\<close>
  "attachToObject attachablesByTable object =
     (if type object = Table \<or> type object = View then
        (case attachablesByTable (makeQualifiedName (schema object) (name object)) of
           None \<Rightarrow> Inr object
         | Some tableAttachables \<Rightarrow>
             (case (if a_sequences tableAttachables \<noteq> []
                    then (case attachSequencesToTable (definition' object) (a_sequences tableAttachables) of
                            Inl e \<Rightarrow> Inl e
                          | Inr d \<Rightarrow> Inr (object\<lparr>sequences := Some (map p_definition (a_sequences tableAttachables)),
                                                 definition' := d\<rparr>))
                    else Inr object) of
                Inl e \<Rightarrow> Inl e
              | Inr object1 \<Rightarrow>
                  (let object2 =
                         (if a_constraints tableAttachables \<noteq> []
                          then object1\<lparr>constraints := Some (map p_definition (a_constraints tableAttachables)),
                                 definition' := attachConstraintsToTable (definition' object1)
                                                  (a_constraints tableAttachables)\<rparr>
                          else object1);
                       indexDefinitions = map p_definition (a_indexes tableAttachables)
                   in Inr (if a_indexes tableAttachables \<noteq> []
                           then object2\<lparr>indexes := Some indexDefinitions,
                                  definition' := definition' object2 @ [CHR 0x0A, CHR 0x0A]
                                                   @ join [CHR 0x0A] indexDefinitions\<rparr>
                           else object2))))
      else Inr object)"

fun attachEach :: "(string \<rightharpoonup> attachables) \<Rightarrow> DatabaseObject list \<Rightarrow> error + DatabaseObject list" where
  \<comment> \<open>the loop \<open>for (const object of objects)\<close>\<close>
  "attachEach attachablesByTable [] = Inr []"
| "attachEach attachablesByTable (object # objs) =
     (case attachToObject attachablesByTable object of
        Inl e \<Rightarrow> Inl e
      | Inr object' \<Rightarrow>
          (case attachEach attachablesByTable objs of
             Inl e \<Rightarrow> Inl e
           | Inr objs' \<Rightarrow> Inr (object' # objs')))"

definition attachObjectsToTables ::
  "DatabaseObject list \<Rightarrow> ParsedStatement list \<Rightarrow> error + DatabaseObject list" where
  "attachObjectsToTables objs attachableStatements =
     attachEach (groupAttachablesByTable attachableStatements) objs"

lemma groupAttachablesByTable_Nil: "groupAttachablesByTable [] = Map.empty"
  by (simp add: groupAttachablesByTable_def)

lemma attachToObject_empty: "attachToObject Map.empty object = Inr object"
  by (simp add: attachToObject_def)

lemma attachEach_empty: "attachEach Map.empty objs = Inr objs"
  by (induction objs) (simp_all add: attachToObject_empty)

text \<open>What \<open>groupAttachablesByTable\<close> holds under a key.\<close>

lemma groupAttachablesByTable_lookup:
  "groupAttachablesByTable atts k =
     (if \<exists>a \<in> set atts. makeQualifiedName (p_schema a) (p_table a) = k
      then Some \<lparr>a_sequences = [a \<leftarrow> atts. makeQualifiedName (p_schema a) (p_table a) = k \<and> p_type a = Sequence],
                 a_constraints = [a \<leftarrow> atts. makeQualifiedName (p_schema a) (p_table a) = k \<and> p_type a = Constraint],
                 a_indexes = [a \<leftarrow> atts. makeQualifiedName (p_schema a) (p_table a) = k \<and> p_type a = Index]\<rparr>
      else None)"
proof (induction atts arbitrary: k rule: rev_induct)
  case Nil
  show ?case by (simp add: groupAttachablesByTable_def)
next
  case (snoc a atts)
  have f: "groupAttachablesByTable (atts @ [a]) = groupAttachable (groupAttachablesByTable atts) a"
    by (simp add: groupAttachablesByTable_def)
  show ?case
  proof (cases "makeQualifiedName (p_schema a) (p_table a) = k")
    case False
    then show ?thesis
      unfolding f groupAttachable_def Let_def by (simp add: snoc.IH[of k])
  next
    case True
    show ?thesis
      unfolding f groupAttachable_def Let_def True
      by (cases "p_type a") (simp_all add: snoc.IH[of k] True)
  qed
qed

section \<open>The parse orchestrator\<close>

definition parse :: "string \<Rightarrow> error + ParsedResult" where
  "parse content =
     (case classifyAll content of (objs, attachableStatements, res) \<Rightarrow>
        (case attachObjectsToTables objs attachableStatements of
           Inl e \<Rightarrow> Inl e
         | Inr objs' \<Rightarrow> Inr \<lparr>objects = objs', residual = trim (join [CHR 0x0A] res)\<rparr>))"

section \<open>Evaluating the model\<close>

text \<open>
  Rules for the simplifier to run the model on a concrete input: the named patterns are
  unfolded only where the matcher reaches them, and the matcher's arguments, which are
  already values, are not simplified again.
\<close>

lemma ms_cong: "r = r' \<Longrightarrow> ms fl r st = ms fl r' st" by simp
lemma exec_from_cong: "exec_from fl r p s = exec_from fl r p s" by simp
lemma match_lit_cong: "match_lit ic cs s = match_lit ic cs s" by simp

lemma ms_lazy:
  "ms fl ws1 st = ms fl (Cat [Set [ClsS], Star (Set [ClsS])]) st"
  "ms fl ws0 st = ms fl (Star (Set [ClsS])) st"
  "ms fl (Plus r) st = ms fl (Cat [r, Star r]) st"
  "ms fl IDENTIFIER_PATTERN st =
     ms fl (Alt (Cat [Set [Ch CHR ''_'', ClsL], Star (Set [Ch CHR ''_'', ClsL, ClsN, Ch CHR ''$''])])
         (Cat [Lit [CHR 0x22],
               Plus (Alt (NSet [Ch (CHR 0x22)]) (Lit [CHR 0x22, CHR 0x22])),
               Lit [CHR 0x22]])) st"
  "ms fl (SCHEMA_QUALIFIED_OBJECT_PATTERN g1 g2) st =
     ms fl (Cat [Opt (Cat [Grp g1 IDENTIFIER_PATTERN, Lit ''.'']), Grp g2 IDENTIFIER_PATTERN]) st"
  by (simp_all only: ws1_def ws0_def Plus_def IDENTIFIER_PATTERN_def
        SCHEMA_QUALIFIED_OBJECT_PATTERN_def)

lemma ms_parsers:
  "ms fl SchemaParser_regex st =
     ms fl (Cat [Lit ''CREATE'', ws1, Lit ''SCHEMA'', ws1, Grp 1 IDENTIFIER_PATTERN]) st"
  "ms fl ExtensionParser_regex st = ms fl (Cat [Lit ''CREATE'', ws1, Lit ''EXTENSION'', ws1,
     Opt (Cat [Lit ''IF'', ws1, Lit ''NOT'', ws1, Lit ''EXISTS'', ws1]),
     Grp 1 IDENTIFIER_PATTERN,
     Opt (Cat [Opt (Cat [ws1, Lit ''WITH'']), Opt (Cat [ws1, Lit ''SCHEMA'']), ws1,
               Grp 2 IDENTIFIER_PATTERN])]) st"
  "ms fl TypeParser_regex st = ms fl (Cat [Lit ''CREATE'', ws1, Lit ''TYPE'', ws1,
     SCHEMA_QUALIFIED_OBJECT_PATTERN 1 2]) st"
  "ms fl DomainParser_regex st = ms fl (Cat [Lit ''CREATE'', ws1, Lit ''DOMAIN'', ws1,
     SCHEMA_QUALIFIED_OBJECT_PATTERN 1 2]) st"
  "ms fl FunctionParser_regex st = ms fl (Cat [Lit ''CREATE'', ws1, Lit ''FUNCTION'', ws1,
     SCHEMA_QUALIFIED_OBJECT_PATTERN 1 2]) st"
  "ms fl ProcedureParser_regex st = ms fl (Cat [Lit ''CREATE'', ws1, Lit ''PROCEDURE'', ws1,
     SCHEMA_QUALIFIED_OBJECT_PATTERN 1 2]) st"
  "ms fl TableParser_regex st = ms fl (Cat [Lit ''CREATE'', ws1, Opt (Cat [Lit ''UNLOGGED'', ws1]),
     Lit ''TABLE'', ws1, SCHEMA_QUALIFIED_OBJECT_PATTERN 1 2]) st"
  "ms fl SequenceParser_regex st = ms fl (Cat [Lit ''ALTER'', ws1, Lit ''TABLE'', ws1,
     Opt (Cat [Lit ''ONLY'', ws1]), SCHEMA_QUALIFIED_OBJECT_PATTERN 1 2,
     ws1, Lit ''ALTER'', ws1, Opt (Cat [Lit ''COLUMN'', ws1]), Grp 3 IDENTIFIER_PATTERN,
     ws1, Lit ''ADD'', ws1,
     Lit ''GENERATED'', ws1, Alt (Lit ''ALWAYS'') (Cat [Lit ''BY'', ws1, Lit ''DEFAULT'']),
     ws1, Lit ''AS'', ws1, Lit ''IDENTITY'', ws1,
     Lit ''('', ws0, Lit ''SEQUENCE'', ws1, Lit ''NAME'', ws1,
     SCHEMA_QUALIFIED_OBJECT_PATTERN 4 5, Star Dot, Lit '')'', ws0, Lit '';'',
     Star (NSet [Ch CHR '';'']), Eol]) st"
  "ms fl ViewParser_regex st = ms fl (Cat [Lit ''CREATE'', ws1,
     Opt (Alt (Cat [Lit ''RECURSIVE'', ws1]) (Cat [Lit ''MATERIALIZED'', ws1])),
     Lit ''VIEW'', ws1, SCHEMA_QUALIFIED_OBJECT_PATTERN 1 2]) st"
  "ms fl ConstraintParser_regex st = ms fl (Cat [Lit ''ALTER'', ws1, Lit ''TABLE'', ws1,
     Opt (Cat [Lit ''ONLY'', ws1]), SCHEMA_QUALIFIED_OBJECT_PATTERN 1 2,
     ws1, Lit ''ADD'', ws1, Lit ''CONSTRAINT'', ws1, Grp 3 IDENTIFIER_PATTERN]) st"
  "ms fl IndexParser_regex st = ms fl (Cat [Lit ''CREATE'', ws1, Opt (Cat [Lit ''UNIQUE'', ws1]),
     Lit ''INDEX'', ws1, Opt (Cat [Grp 1 IDENTIFIER_PATTERN, ws1]),
     Lit ''ON'', ws1, Opt (Cat [Lit ''ONLY'', ws1]), SCHEMA_QUALIFIED_OBJECT_PATTERN 2 3]) st"
  by (simp_all only: SchemaParser_regex_def ExtensionParser_regex_def TypeParser_regex_def
        DomainParser_regex_def FunctionParser_regex_def ProcedureParser_regex_def
        TableParser_regex_def SequenceParser_regex_def ViewParser_regex_def
        ConstraintParser_regex_def IndexParser_regex_def)

lemma ms_attach:
  "ms fl CONSTRAINT_DEFINITION_REGEX st = ms fl (Cat [Lit ''ADD'', ws1, Lit ''CONSTRAINT'', ws1,
     Grp 1 IDENTIFIER_PATTERN, ws1, Grp 2 (Plus Dot), Lit '';'', Star (NSet [Ch CHR '';'']), Eol]) st"
  "ms fl TABLE_HEADER_REGEX st = ms fl (Cat [Lit ''CREATE'', ws1, Opt (Cat [Lit ''UNLOGGED'', ws1]),
     Lit ''TABLE'', ws1, SCHEMA_QUALIFIED_OBJECT_PATTERN 1 2, ws0, Ahead (Lit ''('')]) st"
  "ms fl SEQUENCE_HEADER_REGEX st = ms fl (Cat [Lit ''ALTER'', ws1, Lit ''TABLE'', ws1,
     Opt (Cat [Lit ''ONLY'', ws1]), SCHEMA_QUALIFIED_OBJECT_PATTERN 1 2,
     ws1, Lit ''ALTER'', ws1, Opt (Cat [Lit ''COLUMN'', ws1]), IDENTIFIER_PATTERN,
     ws1, Lit ''ADD'', ws1]) st"
  "ms fl NOT_NULL_REGEX st = ms fl (Cat [ws1, Opt (Cat [Lit ''NOT'', ws1]), Lit ''NULL'', ws0, Eol]) st"
  "ms fl TRAILING_SEMICOLON_REGEX st = ms fl (Cat [ws0, Lit '';'', ws0, Eol]) st"
  "ms fl COLLAPSE_REGEX st = ms fl (Alt (Cat [Set [ClsS], Plus (Set [ClsS])]) (Plus (Lit [CHR 0x0A]))) st"
  "ms fl BRACKET_SPACE_REGEX st = ms fl (Plus (Grp 1 (Alt (Cat [Lit ''('', ws1]) (Cat [ws1, Lit '')''])))) st"
  "ms fl TRAILING_COMMA_REGEX st = ms fl (Cat [Plus (Set [Ch CHR '','', ClsS]), Eol]) st"
  "ms fl UNSAFE_REGEX_CHARACTERS_REGEX st = ms fl (Set [Ch CHR ''-'', Ch CHR ''/'', Ch (CHR 0x5C), Ch CHR ''^'',
     Ch CHR ''$'', Ch CHR ''*'', Ch CHR ''+'', Ch CHR ''?'', Ch CHR ''.'', Ch CHR ''('', Ch CHR '')'',
     Ch CHR ''|'', Ch CHR ''['', Ch CHR '']'', Ch CHR ''{'', Ch CHR ''}'']) st"
  by (simp_all only: CONSTRAINT_DEFINITION_REGEX_def TABLE_HEADER_REGEX_def SEQUENCE_HEADER_REGEX_def
       NOT_NULL_REGEX_def TRAILING_SEMICOLON_REGEX_def COLLAPSE_REGEX_def BRACKET_SPACE_REGEX_def
       TRAILING_COMMA_REGEX_def UNSAFE_REGEX_CHARACTERS_REGEX_def)

lemmas rx_eval = exec_def iu_def isu_def noflags_def ms_lazy ms_parsers ms_attach ms_Star grp_def
  isWhiteSpace_Char unicodeLetter_Char unicodeNumber_Char canonicalize_Char isLineTerminator_def

lemmas tokenizer_eval = splitIntoStatements_def scan.simps Let_def dollarQuote_def exec_def
  DOLLAR_QUOTE_REGEX_def noflags_def ms_Star isNormal_def


lemma skipWhitespaceBack_eval:
  "skipWhitespaceBack s n =
     (if n = 0 then 0 else if isWhiteSpace (s ! (n - 1)) then skipWhitespaceBack s (n - 1) else n)"
  by (cases n) simp_all

lemmas classify_eval = parseStatement_def PARSER_REGISTRY_def GeneralParser_parse_def
  extractDefinition_def Let_def makeQualifiedName_def DEFAULT_SCHEMA_def

lemma classifyStatement_object:
  assumes "trim statement = trimmed" "trimmed \<noteq> []" "parseStatement trimmed = Some parsed"
    and "p_type parsed = Terminal t" "p_residual parsed = None"
  shows "classifyStatement (objs, atts, res) statement = (objs @ [toObject t parsed], atts, res)"
  using assms by (simp add: classifyStatement_def del: trim.simps)

lemma classifyStatement_attachable:
  assumes "trim statement = trimmed" "trimmed \<noteq> []" "parseStatement trimmed = Some parsed"
    and "p_type parsed = Sequence \<or> p_type parsed = Constraint \<or> p_type parsed = Index"
    and "p_residual parsed = None"
  shows "classifyStatement (objs, atts, res) statement = (objs, atts @ [parsed], res)"
  using assms by (auto simp add: classifyStatement_def simp del: trim.simps)

lemma classifyStatement_unclassified:
  assumes "trim statement = trimmed" "trimmed \<noteq> []" "parseStatement trimmed = None"
  shows "classifyStatement (objs, atts, res) statement = (objs, atts, res @ [statement])"
  using assms by (simp add: classifyStatement_def del: trim.simps)

subsection \<open>Single statements\<close>

lemma split_index:
  "splitIntoStatements ''CREATE INDEX idx_a ON public.t (a);'' Semicolon
     = [''CREATE INDEX idx_a ON public.t (a);'']"
  using splitIntoStatements_plain[of Semicolon "[''CREATE INDEX idx_a ON public.t (a)'']" "[]"]
  by (simp add: plain_def)

lemma parse_index:
  "parseStatement ''CREATE INDEX idx_a ON public.t (a);''
     = Some \<lparr>p_type = Index, p_schema = Some ''public'', p_name = Some ''idx_a'',
         p_qualifiedName = Some ''public.idx_a'',
         p_definition = ''CREATE INDEX idx_a ON public.t (a);'', p_residual = None,
         p_tableSchema = None, p_table = Some ''t'', p_column = None\<rparr>"
  by (simp add: rx_eval classify_eval cong: ms_cong exec_from_cong match_lit_cong)

lemma parse_table_foo:
  "parseStatement ''CREATE TABLE foo (id int);''
     = Some \<lparr>p_type = Terminal Table, p_schema = Some ''public'', p_name = Some ''foo'',
         p_qualifiedName = Some ''public.foo'',
         p_definition = ''CREATE TABLE foo (id int);'', p_residual = None,
         p_tableSchema = None, p_table = None, p_column = None\<rparr>"
  by (simp add: rx_eval classify_eval cong: ms_cong exec_from_cong match_lit_cong)

lemma parse_extension_cascade:
  "parseStatement ''CREATE EXTENSION foo CASCADE;''
     = Some \<lparr>p_type = Terminal Extension, p_schema = Some ''CASCADE'', p_name = Some ''foo'',
         p_qualifiedName = Some ''CASCADE.foo'',
         p_definition = ''CREATE EXTENSION foo CASCADE;'', p_residual = None,
         p_tableSchema = None, p_table = None, p_column = None\<rparr>"
  by (simp add: rx_eval classify_eval cong: ms_cong exec_from_cong match_lit_cong)

lemma split_single:
  "list_all (plain sep) s \<Longrightarrow>
     splitIntoStatements (s @ [separator_char sep]) sep = [s @ [separator_char sep]]"
  using splitIntoStatements_plain[of sep "[s]" "[]"] by simp


subsection \<open>A table with two indexes\<close>

definition dump_indexes :: string where
  "dump_indexes = ''CREATE TABLE public.t (a int);'' @ [CHR 0x0A]
     @ ''CREATE INDEX i1 ON public.t (a);'' @ [CHR 0x0A]
     @ ''CREATE INDEX i2 ON public.t (a);''"

lemma split_indexes:
  "splitIntoStatements dump_indexes Semicolon
     = [''CREATE TABLE public.t (a int);'', CHR 0x0A # ''CREATE INDEX i1 ON public.t (a);'',
        CHR 0x0A # ''CREATE INDEX i2 ON public.t (a);'']"
  using splitIntoStatements_plain[of Semicolon "[''CREATE TABLE public.t (a int)'',
     CHR 0x0A # ''CREATE INDEX i1 ON public.t (a)'', CHR 0x0A # ''CREATE INDEX i2 ON public.t (a)'']" "[]"]
  by (simp add: plain_def dump_indexes_def)

lemma parse_table_t:
  "parseStatement ''CREATE TABLE public.t (a int);''
     = Some \<lparr>p_type = Terminal Table, p_schema = Some ''public'', p_name = Some ''t'',
         p_qualifiedName = Some ''public.t'',
         p_definition = ''CREATE TABLE public.t (a int);'', p_residual = None,
         p_tableSchema = None, p_table = None, p_column = None\<rparr>"
  by (simp add: rx_eval classify_eval cong: ms_cong exec_from_cong match_lit_cong)

lemma parse_index_i1:
  "parseStatement ''CREATE INDEX i1 ON public.t (a);''
     = Some \<lparr>p_type = Index, p_schema = Some ''public'', p_name = Some ''i1'',
         p_qualifiedName = Some ''public.i1'',
         p_definition = ''CREATE INDEX i1 ON public.t (a);'', p_residual = None,
         p_tableSchema = None, p_table = Some ''t'', p_column = None\<rparr>"
  by (simp add: rx_eval classify_eval cong: ms_cong exec_from_cong match_lit_cong)

lemma parse_index_i2:
  "parseStatement ''CREATE INDEX i2 ON public.t (a);''
     = Some \<lparr>p_type = Index, p_schema = Some ''public'', p_name = Some ''i2'',
         p_qualifiedName = Some ''public.i2'',
         p_definition = ''CREATE INDEX i2 ON public.t (a);'', p_residual = None,
         p_tableSchema = None, p_table = Some ''t'', p_column = None\<rparr>"
  by (simp add: rx_eval classify_eval cong: ms_cong exec_from_cong match_lit_cong)

definition table_t :: DatabaseObject where
  "table_t = \<lparr>type = Table, schema = Some ''public'', name = Some ''t'',
      qualifiedName = Some ''public.t'', definition' = ''CREATE TABLE public.t (a int);'',
      sequences = None, constraints = None, indexes = None\<rparr>"

definition index_i1 :: ParsedStatement where
  "index_i1 = \<lparr>p_type = Index, p_schema = Some ''public'', p_name = Some ''i1'',
         p_qualifiedName = Some ''public.i1'',
         p_definition = ''CREATE INDEX i1 ON public.t (a);'', p_residual = None,
         p_tableSchema = None, p_table = Some ''t'', p_column = None\<rparr>"

definition index_i2 :: ParsedStatement where
  "index_i2 = \<lparr>p_type = Index, p_schema = Some ''public'', p_name = Some ''i2'',
         p_qualifiedName = Some ''public.i2'',
         p_definition = ''CREATE INDEX i2 ON public.t (a);'', p_residual = None,
         p_tableSchema = None, p_table = Some ''t'', p_column = None\<rparr>"

lemma classifyAll_indexes:
  "classifyAll dump_indexes = ([table_t], [index_i1, index_i2], [])"
proof -
  have 1: "classifyStatement ([], [], []) ''CREATE TABLE public.t (a int);'' = ([table_t], [], [])"
    using classifyStatement_object[OF _ _ parse_table_t, of "''CREATE TABLE public.t (a int);''" Table "[]" "[]" "[]"]
    by (simp add: isWhiteSpace_Char toObject_def table_t_def)
  have 2: "classifyStatement ([table_t], [], []) (CHR 0x0A # ''CREATE INDEX i1 ON public.t (a);'')
         = ([table_t], [index_i1], [])"
    using classifyStatement_attachable[OF _ _ parse_index_i1,
            of "CHR 0x0A # ''CREATE INDEX i1 ON public.t (a);''" "[table_t]" "[]" "[]"]
    by (simp add: isWhiteSpace_Char index_i1_def)
  have 3: "classifyStatement ([table_t], [index_i1], []) (CHR 0x0A # ''CREATE INDEX i2 ON public.t (a);'')
         = ([table_t], [index_i1, index_i2], [])"
    using classifyStatement_attachable[OF _ _ parse_index_i2,
            of "CHR 0x0A # ''CREATE INDEX i2 ON public.t (a);''" "[table_t]" "[index_i1]" "[]"]
    by (simp add: isWhiteSpace_Char index_i2_def)
  show ?thesis
    unfolding classifyAll_def split_indexes by (simp only: foldl.simps 1 2 3)
qed

lemma attach_indexes:
  "attachToObject (groupAttachablesByTable [index_i1, index_i2]) table_t
     = Inr (table_t\<lparr>indexes := Some [''CREATE INDEX i1 ON public.t (a);'', ''CREATE INDEX i2 ON public.t (a);''],
              definition' := ''CREATE TABLE public.t (a int);'' @ [CHR 0x0A, CHR 0x0A]
                 @ ''CREATE INDEX i1 ON public.t (a);'' @ [CHR 0x0A] @ ''CREATE INDEX i2 ON public.t (a);''\<rparr>)"
  by (simp add: attachToObject_def groupAttachablesByTable_lookup table_t_def index_i1_def index_i2_def
        makeQualifiedName_def)

subsection \<open>A table and the identity sequence of a table of another schema\<close>

definition seq_a_t :: ParsedStatement where
  "seq_a_t = \<lparr>p_type = Sequence, p_schema = Some ''b'', p_name = Some ''s'',
      p_qualifiedName = Some ''b.s'',
      p_definition = ''ALTER TABLE a.t ALTER id ADD GENERATED ALWAYS AS IDENTITY (SEQUENCE NAME b.s);'',
      p_residual = None, p_tableSchema = Some ''a'', p_table = Some ''t'', p_column = Some ''id''\<rparr>"

lemma parse_seq_a_t:
  "parseStatement ''ALTER TABLE a.t ALTER id ADD GENERATED ALWAYS AS IDENTITY (SEQUENCE NAME b.s);''
     = Some seq_a_t"
  unfolding seq_a_t_def
  by (simp add: rx_eval classify_eval cong: ms_cong exec_from_cong match_lit_cong)

lemma parse_table_b_t:
  "parseStatement ''CREATE TABLE b.t (id int);''
     = Some \<lparr>p_type = Terminal Table, p_schema = Some ''b'', p_name = Some ''t'',
         p_qualifiedName = Some ''b.t'',
         p_definition = ''CREATE TABLE b.t (id int);'', p_residual = None,
         p_tableSchema = None, p_table = None, p_column = None\<rparr>"
  by (simp add: rx_eval classify_eval cong: ms_cong exec_from_cong match_lit_cong)

lemmas attach_eval = findTableColumnDefinition_def getTableColumnRegex_def parseAtom_def quantify_def
  replaceFirst_def replaceAll_def attachSequence_def sequenceDefinition_def lastIndexOf_def
  Let_def

lemma column_regex_id:
  "getTableColumnRegex (Some ''id'') = Inr (Cat [Bol, Star (Set [ClsS]), Lit ''i'', Lit ''d'', Plus (Set [ClsS])])"
  by (simp add: getTableColumnRegex_def replaceFirst_def rx_eval parseAtom_def quantify_def Let_def
        cong: ms_cong exec_from_cong match_lit_cong)

lemma find_column_b_t:
  "findTableColumnDefinition ''CREATE TABLE b.t (id int);'' (Some ''id'')
     = Inr (Some \<lparr>cd_definition = ''id int'', startPos = 18, endPos = 24\<rparr>)"
  by (simp add: findTableColumnDefinition_def column_regex_id lastIndexOf_def replaceFirst_def
        rx_eval tokenizer_eval Plus_def Let_def
        cong: ms_cong exec_from_cong match_lit_cong)

lemma sequence_header_a_t:
  "exec iu SEQUENCE_HEADER_REGEX (p_definition seq_a_t)
     = Some \<lparr>index = 0, matched = ''ALTER TABLE a.t ALTER id ADD '', groups = [(2, ''t''), (1, ''a'')]\<rparr>"
  unfolding seq_a_t_def
  by (simp add: rx_eval cong: ms_cong exec_from_cong match_lit_cong)

lemma sequence_text_a_t:
  "sequenceDefinition (p_definition seq_a_t)
      \<lparr>index = 0, matched = ''ALTER TABLE a.t ALTER id ADD '', groups = g\<rparr>
     = ''GENERATED ALWAYS AS IDENTITY (SEQUENCE NAME b.s)''"
  unfolding seq_a_t_def
  by (simp add: sequenceDefinition_def replaceFirst_def replaceAll_def rx_eval Plus_def
        cong: ms_cong exec_from_cong match_lit_cong)

lemma attach_seq_b_t:
  "attachSequence ''CREATE TABLE b.t (id int);'' seq_a_t
     = Inr ''CREATE TABLE b.t (id int GENERATED ALWAYS AS IDENTITY (SEQUENCE NAME b.s));''"
proof -
  have c: "p_column seq_a_t = Some ''id''" by (simp add: seq_a_t_def)
  have n: "exec \<lparr>ignoreCase = True, dotAll = False\<rparr> NOT_NULL_REGEX ''id int'' = None"
    by (simp add: rx_eval Plus_def cong: ms_cong exec_from_cong match_lit_cong)
  show ?thesis
    unfolding attachSequence_def c find_column_b_t sequence_header_a_t
    by (simp add: n sequence_text_a_t Let_def)
qed

definition table_b_t :: DatabaseObject where
  "table_b_t = \<lparr>type = Table, schema = Some ''b'', name = Some ''t'',
      qualifiedName = Some ''b.t'', definition' = ''CREATE TABLE b.t (id int);'',
      sequences = None, constraints = None, indexes = None\<rparr>"

lemma classifyAll_seq_other_table:
  "classifyAll (''CREATE TABLE b.t (id int);'' @ [CHR 0x0A]
       @ ''ALTER TABLE a.t ALTER id ADD GENERATED ALWAYS AS IDENTITY (SEQUENCE NAME b.s);'')
     = ([table_b_t], [seq_a_t], [])"
proof -
  have s: "splitIntoStatements (''CREATE TABLE b.t (id int);'' @ [CHR 0x0A]
       @ ''ALTER TABLE a.t ALTER id ADD GENERATED ALWAYS AS IDENTITY (SEQUENCE NAME b.s);'') Semicolon
     = [''CREATE TABLE b.t (id int);'',
        CHR 0x0A # ''ALTER TABLE a.t ALTER id ADD GENERATED ALWAYS AS IDENTITY (SEQUENCE NAME b.s);'']"
    using splitIntoStatements_plain[of Semicolon "[''CREATE TABLE b.t (id int)'',
       CHR 0x0A # ''ALTER TABLE a.t ALTER id ADD GENERATED ALWAYS AS IDENTITY (SEQUENCE NAME b.s)'']" "[]"]
    by (simp add: plain_def)
  have 1: "classifyStatement ([], [], []) ''CREATE TABLE b.t (id int);'' = ([table_b_t], [], [])"
    using classifyStatement_object[OF _ _ parse_table_b_t, of "''CREATE TABLE b.t (id int);''" Table "[]" "[]" "[]"]
    by (simp add: isWhiteSpace_Char toObject_def table_b_t_def)
  have 2: "classifyStatement ([table_b_t], [], [])
        (CHR 0x0A # ''ALTER TABLE a.t ALTER id ADD GENERATED ALWAYS AS IDENTITY (SEQUENCE NAME b.s);'')
         = ([table_b_t], [seq_a_t], [])"
    using classifyStatement_attachable[OF _ _ parse_seq_a_t,
            of "CHR 0x0A # ''ALTER TABLE a.t ALTER id ADD GENERATED ALWAYS AS IDENTITY (SEQUENCE NAME b.s);''"
               "[table_b_t]" "[]" "[]"]
    by (simp add: isWhiteSpace_Char) (simp add: seq_a_t_def)
  show ?thesis
    unfolding classifyAll_def s by (simp only: foldl.simps 1 2)
qed

lemma attach_seq_other_table:
  "attachToObject (groupAttachablesByTable [seq_a_t]) table_b_t
     = Inr (table_b_t\<lparr>sequences := Some [''ALTER TABLE a.t ALTER id ADD GENERATED ALWAYS AS IDENTITY (SEQUENCE NAME b.s);''],
              definition' := ''CREATE TABLE b.t (id int GENERATED ALWAYS AS IDENTITY (SEQUENCE NAME b.s));''\<rparr>)"
proof -
  have g: "groupAttachablesByTable [seq_a_t] (makeQualifiedName (schema table_b_t) (name table_b_t))
      = Some \<lparr>a_sequences = [seq_a_t], a_constraints = [], a_indexes = []\<rparr>"
    by (simp add: groupAttachablesByTable_lookup table_b_t_def seq_a_t_def makeQualifiedName_def)
  have d: "definition' table_b_t = ''CREATE TABLE b.t (id int);''" by (simp add: table_b_t_def)
  have t: "type table_b_t = Table" by (simp add: table_b_t_def)
  have p: "p_definition seq_a_t = ''ALTER TABLE a.t ALTER id ADD GENERATED ALWAYS AS IDENTITY (SEQUENCE NAME b.s);''"
    by (simp add: seq_a_t_def)
  show ?thesis
    unfolding attachToObject_def g
    by (simp add: t d p attach_seq_b_t del: attachSequence_def)
qed

section \<open>The claims\<close>

text \<open>
  Claim C10. For every input and for either separator, the statements that
  \<open>splitIntoStatements\<close> returns, concatenated in order, are the input itself, character for
  character, and none of them is empty. Unclosed comments, quotes and dollar-quotes are inputs
  like any other.
\<close>

theorem splitIntoStatements_partition:
  "concat (splitIntoStatements content sep) = content
   \<and> [] \<notin> set (splitIntoStatements content sep)"
proof -
  let ?init = "\<lparr>statements = [], currentStatement = [], inDashComment = False,
                 inBlockComment = False, inSingleQuote = False, inDoubleQuote = False\<rparr>"
  have "concat (statements (scan sep ?init content)) @ currentStatement (scan sep ?init content)
      = content"
    using scan_concat[of sep ?init content] by simp
  moreover have "[] \<notin> set (statements (scan sep ?init content))"
    by (rule scan_nonempty) simp
  ultimately show ?thesis
    unfolding splitIntoStatements_def by (auto simp: Let_def)
qed



text \<open>
  Claim C7. When the scanner stands on a dollar-quote tag that does not occur again, one
  iteration of the loop appends the tag to the current statement and resumes right behind it;
  the four flags are as they were before, so that a scanner that was in the Normal state still
  is, and a separator right behind the tag then ends the statement. The scanner of the model is
  a total function: there is no input on which it fails. A scanner that was inside a comment or
  a quote stays inside it: the flags are not reset.
\<close>

theorem unclosed_dollar_quote:
  assumes "exec noflags DOLLAR_QUOTE_REGEX s = Some m"
    and "indexOf (matched m) (drop (length (matched m)) s) = None"
  shows "s = matched m @ drop (length (matched m)) s
    \<and> step sep st s = (st\<lparr>currentStatement := currentStatement st @ matched m\<rparr>,
                       drop (length (matched m)) s)
    \<and> scan sep st s = scan sep (st\<lparr>currentStatement := currentStatement st @ matched m\<rparr>)
                         (drop (length (matched m)) s)
    \<and> isNormal (fst (step sep st s)) = isNormal st
    \<and> (isNormal st \<longrightarrow> drop (length (matched m)) s = separator_char sep # cs \<longrightarrow>
          scan sep st s = scan sep (st\<lparr>statements := statements st
                                      @ [currentStatement st @ matched m @ [separator_char sep]],
                                    currentStatement := []\<rparr>) cs)"
proof -
  from dollar_tag_head[OF assms(1)] obtain tl where s: "s = CHR ''$'' # tl" by blast
  have tag: "matched m = take (length (matched m)) s" by (rule dollar_tag_prefix(1)[OF assms(1)])
  have dq: "dollarQuote s = (matched m, drop (length (matched m)) s)"
    using assms by (simp add: dollarQuote_def Let_def)
  have st: "step sep st s = (st\<lparr>currentStatement := currentStatement st @ matched m\<rparr>,
                       drop (length (matched m)) s)"
    unfolding s step_dollar using dq s by simp
  have "s \<noteq> []" using s by simp
  from scan_step[OF this, of sep st] st
  have sc: "scan sep st s = scan sep (st\<lparr>currentStatement := currentStatement st @ matched m\<rparr>)
                         (drop (length (matched m)) s)"
    by simp
  have eq: "s = matched m @ drop (length (matched m)) s"
    using tag append_take_drop_id[of "length (matched m)" s] by simp
  have fl: "isNormal (fst (step sep st s)) = isNormal st"
    using st by (simp add: isNormal_def)
  have "scan sep st s = scan sep (st\<lparr>statements := statements st
                                      @ [currentStatement st @ matched m @ [separator_char sep]],
                                    currentStatement := []\<rparr>) cs"
    if n: "isNormal st" and d: "drop (length (matched m)) s = separator_char sep # cs"
  proof -
    have "isNormal (st\<lparr>currentStatement := currentStatement st @ matched m\<rparr>)"
      using n by (simp add: isNormal_def)
    from scan_separator[OF this, of sep cs] show ?thesis
      using sc d by simp
  qed
  note sp = this
  show ?thesis
    by (intro conjI impI) (rule eq, rule st, rule sc, rule fl, rule sp, assumption+)
qed

theorem unclosed_dollar_quote_witness:
  "step Semicolon \<lparr>statements = [], currentStatement = ''a'', inDashComment = False,
        inBlockComment = False, inSingleQuote = False, inDoubleQuote = False\<rparr> ''$x$;b''
     = (\<lparr>statements = [], currentStatement = ''a$x$'', inDashComment = False,
        inBlockComment = False, inSingleQuote = False, inDoubleQuote = False\<rparr>, '';b'')
   \<and> splitIntoStatements ''a$x$;b'' Semicolon = [''a$x$;'', ''b'']"
proof -
  let ?st = "\<lparr>statements = [], currentStatement = ''a'', inDashComment = False,
        inBlockComment = False, inSingleQuote = False, inDoubleQuote = False\<rparr>"
  let ?m = "\<lparr>index = 0, matched = ''$x$'', groups = []\<rparr>"
  have m: "exec noflags DOLLAR_QUOTE_REGEX ''$x$;b'' = Some ?m"
    by (simp add: tokenizer_eval)
  have k: "indexOf (matched ?m) (drop (length (matched ?m)) ''$x$;b'') = None"
    by simp
  have "step Semicolon ?st ''$x$;b'' = (?st\<lparr>currentStatement := ''a$x$''\<rparr>, '';b'')"
    using unclosed_dollar_quote[OF m k, of Semicolon ?st "''b''"] by simp
  moreover have "splitIntoStatements ''a$x$;b'' Semicolon = [''a$x$;'', ''b'']"
    by (simp add: tokenizer_eval)
  ultimately show ?thesis by simp
qed

theorem unclosed_dollar_quote_counterexample:
  "map_option matched (exec noflags DOLLAR_QUOTE_REGEX ''$$;x'') = Some ''$$''
   \<and> indexOf ''$$'' '';x'' = None
   \<and> \<not> isNormal (fst (step Semicolon \<lparr>statements = [], currentStatement = [CHR 0x27],
          inDashComment = False, inBlockComment = False, inSingleQuote = True,
          inDoubleQuote = False\<rparr> ''$$;x''))
   \<and> splitIntoStatements (CHR 0x27 # ''$$;x'') Semicolon = [CHR 0x27 # ''$$;x'']"
  by (simp add: tokenizer_eval)

text \<open>
  Claim C1. The texts that classification hands on, taken in source order, are the dump up to
  white space at the boundaries of statements. The tokenizer cuts the dump into statements
  that concatenate to it. For each statement there is a list of pieces, and the definitions
  of the objects, the definitions of the attachable statements and the residual fragments
  are the three projections of all the pieces, each in order. The pieces of a statement,
  concatenated, are the statement itself when no parser matches it, and otherwise the
  statement without the white space in front of it and behind it: every statement is white
  space, then its pieces, then white space, and nothing inside it is changed. The definitions
  of the attachable statements are needed for this: they are in no object and in no residual
  fragment before attachment.
\<close>

theorem classify_accounts_for_every_character:
  "\<exists>pss. map definition' (fst (classifyAll content)) = objectTexts (concat pss)
      \<and> map p_definition (fst (snd (classifyAll content))) = attachableTexts (concat pss)
      \<and> snd (snd (classifyAll content)) = residualTexts (concat pss)
      \<and> concat (splitIntoStatements content Semicolon) = content
      \<and> list_all2 (\<lambda>ps statement. concat (map text_of ps)
            = (if trim statement \<noteq> [] \<and> parseStatement (trim statement) = None
               then statement else trim statement)) pss (splitIntoStatements content Semicolon)
      \<and> list_all2 (\<lambda>ps statement. \<exists>a b. list_all isWhiteSpace a \<and> list_all isWhiteSpace b
            \<and> statement = a @ concat (map text_of ps) @ b) pss (splitIntoStatements content Semicolon)
      \<and> blackOf (concat (map text_of (concat pss))) = blackOf content"
proof -
  from classify_fold_pieces_exact[of "[]" "[]" "[]" "splitIntoStatements content Semicolon"]
  obtain pss where pss: "map definition' (fst (classifyAll content)) = objectTexts (concat pss)"
    "map p_definition (fst (snd (classifyAll content))) = attachableTexts (concat pss)"
    "snd (snd (classifyAll content)) = residualTexts (concat pss)"
    "list_all2 (\<lambda>ps statement. concat (map text_of ps)
            = (if trim statement \<noteq> [] \<and> parseStatement (trim statement) = None
               then statement else trim statement)) pss (splitIntoStatements content Semicolon)"
    unfolding classifyAll_def by auto
  from pieces_black[OF pss(4)]
  have "blackOf (concat (map text_of (concat pss))) = blackOf content"
    by (simp only: concat_splitIntoStatements)
  with pss pieces_boundaries[OF pss(4)] concat_splitIntoStatements[of content Semicolon]
  show ?thesis by blast
qed

text \<open>
  Without the attachable statements the texts do not add up: the dump below is one index
  statement, which classification puts in neither \<open>objects\<close> nor \<open>residual\<close>.
\<close>

theorem index_text_in_no_object_and_no_residual:
  "classifyAll ''CREATE INDEX idx_a ON public.t (a);''
     = ([], [\<lparr>p_type = Index, p_schema = Some ''public'', p_name = Some ''idx_a'',
         p_qualifiedName = Some ''public.idx_a'',
         p_definition = ''CREATE INDEX idx_a ON public.t (a);'', p_residual = None,
         p_tableSchema = None, p_table = Some ''t'', p_column = None\<rparr>], [])
   \<and> blackOf (concat (map definition' (fst (classifyAll ''CREATE INDEX idx_a ON public.t (a);''))
                @ snd (snd (classifyAll ''CREATE INDEX idx_a ON public.t (a);''))))
       \<noteq> blackOf ''CREATE INDEX idx_a ON public.t (a);''"
proof -
  have t: "trim ''CREATE INDEX idx_a ON public.t (a);'' = ''CREATE INDEX idx_a ON public.t (a);''"
    by (simp add: isWhiteSpace_Char)
  have c: "classifyAll ''CREATE INDEX idx_a ON public.t (a);''
     = ([], [\<lparr>p_type = Index, p_schema = Some ''public'', p_name = Some ''idx_a'',
         p_qualifiedName = Some ''public.idx_a'',
         p_definition = ''CREATE INDEX idx_a ON public.t (a);'', p_residual = None,
         p_tableSchema = None, p_table = Some ''t'', p_column = None\<rparr>], [])"
    unfolding classifyAll_def split_index
    by (simp add: classifyStatement_def t parse_index del: trim.simps)
  show ?thesis
    unfolding c by (simp add: blackOf_def isWhiteSpace_Char)
qed

text \<open>
  Claim C8. The schema of \<open>CREATE TABLE foo (id int);\<close> is \<open>public\<close> and its qualified name is
  \<open>public.foo\<close>. The statement \<open>CREATE EXTENSION foo CASCADE;\<close> names no schema either, and its
  schema is \<open>CASCADE\<close>, its qualified name \<open>CASCADE.foo\<close>: in the pattern of the extension
  parser the keywords \<open>WITH\<close> and \<open>SCHEMA\<close> are both optional, so the group of the schema takes
  the identifier behind the name of the extension, whatever it is.
\<close>

theorem extension_option_taken_as_schema:
  "parse ''CREATE EXTENSION foo CASCADE;''
     = Inr \<lparr>objects = [\<lparr>type = Extension, schema = Some ''CASCADE'', name = Some ''foo'',
          qualifiedName = Some ''CASCADE.foo'', definition' = ''CREATE EXTENSION foo CASCADE;'',
          sequences = None, constraints = None, indexes = None\<rparr>],
        residual = []\<rparr>
   \<and> parse ''CREATE TABLE foo (id int);''
     = Inr \<lparr>objects = [\<lparr>type = Table, schema = Some ''public'', name = Some ''foo'',
          qualifiedName = Some ''public.foo'', definition' = ''CREATE TABLE foo (id int);'',
          sequences = None, constraints = None, indexes = None\<rparr>],
        residual = []\<rparr>"
proof -
  have s1: "splitIntoStatements ''CREATE EXTENSION foo CASCADE;'' Semicolon
      = [''CREATE EXTENSION foo CASCADE;'']"
    using split_single[of Semicolon "''CREATE EXTENSION foo CASCADE''"] by (simp add: plain_def)
  have s2: "splitIntoStatements ''CREATE TABLE foo (id int);'' Semicolon
      = [''CREATE TABLE foo (id int);'']"
    using split_single[of Semicolon "''CREATE TABLE foo (id int)''"] by (simp add: plain_def)
  have c1: "classifyAll ''CREATE EXTENSION foo CASCADE;''
      = ([\<lparr>type = Extension, schema = Some ''CASCADE'', name = Some ''foo'',
          qualifiedName = Some ''CASCADE.foo'', definition' = ''CREATE EXTENSION foo CASCADE;'',
          sequences = None, constraints = None, indexes = None\<rparr>], [], [])"
    unfolding classifyAll_def s1
    using classifyStatement_object[OF _ _ parse_extension_cascade,
            of "''CREATE EXTENSION foo CASCADE;''" Extension "[]" "[]" "[]"]
    by (simp add: isWhiteSpace_Char toObject_def)
  have c2: "classifyAll ''CREATE TABLE foo (id int);''
      = ([\<lparr>type = Table, schema = Some ''public'', name = Some ''foo'',
          qualifiedName = Some ''public.foo'', definition' = ''CREATE TABLE foo (id int);'',
          sequences = None, constraints = None, indexes = None\<rparr>], [], [])"
    unfolding classifyAll_def s2
    using classifyStatement_object[OF _ _ parse_table_foo,
            of "''CREATE TABLE foo (id int);''" Table "[]" "[]" "[]"]
    by (simp add: isWhiteSpace_Char toObject_def)
  show ?thesis
    unfolding parse_def c1 c2
    by (simp add: attachObjectsToTables_def groupAttachablesByTable_Nil attachEach_empty del: attachEach.simps)
qed

text \<open>
  Claim C9. With no attachable statement the attachment engine returns the objects it was
  given, whatever they are: every field of every object is what it was, the definition and
  the three lists of attached statements among them.
\<close>

theorem attach_nothing: "attachObjectsToTables objs [] = Inr objs"
  by (simp add: attachObjectsToTables_def groupAttachablesByTable_Nil attachEach_empty)

text \<open>
  Claim C5. For a table or a view that the grouping holds index statements for, the definition
  after attachment is the definition that attaching everything but the indexes gives, then
  two newlines, then the index statements with one newline between each two; and \<open>indexes\<close>
  holds the index statements.
\<close>

theorem indexes_appended:
  assumes "type object = Table \<or> type object = View"
    and "attachToObject (groupAttachablesByTable atts) object = Inr object'"
    and "ixs = map p_definition [a \<leftarrow> atts.
           makeQualifiedName (p_schema a) (p_table a) = makeQualifiedName (schema object) (name object)
           \<and> p_type a = Index]"
    and "ixs \<noteq> []"
  shows "\<exists>object2. attachToObject (groupAttachablesByTable [a \<leftarrow> atts. p_type a \<noteq> Index]) object = Inr object2
           \<and> definition' object' = definition' object2 @ [CHR 0x0A, CHR 0x0A] @ join [CHR 0x0A] ixs
           \<and> indexes object' = Some ixs"
proof -
  let ?k = "makeQualifiedName (schema object) (name object)"
  let ?key = "\<lambda>a. makeQualifiedName (p_schema a) (p_table a)"
  let ?rest = "[a \<leftarrow> atts. p_type a \<noteq> Index]"
  let ?sq = "[a \<leftarrow> atts. ?key a = ?k \<and> p_type a = Sequence]"
  let ?cn = "[a \<leftarrow> atts. ?key a = ?k \<and> p_type a = Constraint]"
  let ?ix = "[a \<leftarrow> atts. ?key a = ?k \<and> p_type a = Index]"
  have ix: "?ix \<noteq> []" using assms(3,4) by auto
  then have ex: "\<exists>a \<in> set atts. ?key a = ?k"
    by (auto simp: filter_empty_conv)
  have g: "groupAttachablesByTable atts ?k
             = Some \<lparr>a_sequences = ?sq, a_constraints = ?cn, a_indexes = ?ix\<rparr>"
    using ex by (simp add: groupAttachablesByTable_lookup)
  have sq': "[a \<leftarrow> ?rest. ?key a = ?k \<and> p_type a = Sequence] = ?sq"
    by (induction atts) auto
  have cn': "[a \<leftarrow> ?rest. ?key a = ?k \<and> p_type a = Constraint] = ?cn"
    by (induction atts) auto
  have ix': "[a \<leftarrow> ?rest. ?key a = ?k \<and> p_type a = Index] = []"
    by (induction atts) auto
  have g': "groupAttachablesByTable ?rest ?k
             = (if \<exists>a \<in> set ?rest. ?key a = ?k
                then Some \<lparr>a_sequences = ?sq, a_constraints = ?cn, a_indexes = []\<rparr> else None)"
    by (simp only: groupAttachablesByTable_lookup[of ?rest ?k] sq' cn' ix')
  have none: "?sq = [] \<and> ?cn = []" if "\<not> (\<exists>a \<in> set ?rest. ?key a = ?k)"
    using that by (auto simp: filter_empty_conv)
  show ?thesis
  proof (cases "\<exists>a \<in> set ?rest. ?key a = ?k")
    case True
    with g' have g2: "groupAttachablesByTable ?rest ?k
             = Some \<lparr>a_sequences = ?sq, a_constraints = ?cn, a_indexes = []\<rparr>" by simp
    from assms(1,2) ix show ?thesis
      unfolding attachToObject_def g g2 assms(3)
      by (auto simp: Let_def split: if_splits sum.splits)
  next
    case False
    with g' have g2: "groupAttachablesByTable ?rest ?k = None" by simp
    from none[OF False] have e: "?sq = []" "?cn = []" by simp_all
    from assms(1,2) ix show ?thesis
      unfolding attachToObject_def g g2 assms(3) e
      by (auto simp: Let_def split: if_splits sum.splits)
  qed
qed

theorem indexes_appended_witness:
  "attachToObject (groupAttachablesByTable [index_i1, index_i2]) table_t
     = Inr (table_t\<lparr>indexes := Some [''CREATE INDEX i1 ON public.t (a);'', ''CREATE INDEX i2 ON public.t (a);''],
              definition' := ''CREATE TABLE public.t (a int);'' @ [CHR 0x0A, CHR 0x0A]
                 @ ''CREATE INDEX i1 ON public.t (a);'' @ [CHR 0x0A] @ ''CREATE INDEX i2 ON public.t (a);''\<rparr>)
   \<and> (\<exists>object2. attachToObject (groupAttachablesByTable [a \<leftarrow> [index_i1, index_i2]. p_type a \<noteq> Index]) table_t = Inr object2
           \<and> ''CREATE TABLE public.t (a int);'' @ [CHR 0x0A, CHR 0x0A]
                 @ ''CREATE INDEX i1 ON public.t (a);'' @ [CHR 0x0A] @ ''CREATE INDEX i2 ON public.t (a);''
              = definition' object2 @ [CHR 0x0A, CHR 0x0A]
                 @ join [CHR 0x0A] [''CREATE INDEX i1 ON public.t (a);'', ''CREATE INDEX i2 ON public.t (a);''])"
proof -
  let ?ixs = "[''CREATE INDEX i1 ON public.t (a);'', ''CREATE INDEX i2 ON public.t (a);'']"
  have 1: "type table_t = Table \<or> type table_t = View" by (simp add: table_t_def)
  have 3: "?ixs = map p_definition [a \<leftarrow> [index_i1, index_i2].
           makeQualifiedName (p_schema a) (p_table a) = makeQualifiedName (schema table_t) (name table_t)
           \<and> p_type a = Index]"
    by (simp add: table_t_def index_i1_def index_i2_def makeQualifiedName_def)
  have 4: "?ixs \<noteq> []" by simp
  from indexes_appended[OF 1 attach_indexes 3 4] attach_indexes
  show ?thesis by simp
qed

text \<open>
  Two index statements on one table: a blank line follows the definition of the table, and no
  blank line separates the two index statements.
\<close>

theorem indexes_separated_by_one_newline:
  "parse (''CREATE TABLE public.t (a int);'' @ [CHR 0x0A]
     @ ''CREATE INDEX i1 ON public.t (a);'' @ [CHR 0x0A]
     @ ''CREATE INDEX i2 ON public.t (a);'')
   = Inr \<lparr>objects = [\<lparr>type = Table, schema = Some ''public'', name = Some ''t'',
        qualifiedName = Some ''public.t'',
        definition' = ''CREATE TABLE public.t (a int);'' @ [CHR 0x0A, CHR 0x0A]
           @ ''CREATE INDEX i1 ON public.t (a);'' @ [CHR 0x0A]
           @ ''CREATE INDEX i2 ON public.t (a);'',
        sequences = None, constraints = None,
        indexes = Some [''CREATE INDEX i1 ON public.t (a);'', ''CREATE INDEX i2 ON public.t (a);'']\<rparr>],
      residual = []\<rparr>"
proof -
  have "parse dump_indexes = Inr \<lparr>objects = [table_t\<lparr>indexes := Some [''CREATE INDEX i1 ON public.t (a);'', ''CREATE INDEX i2 ON public.t (a);''],
              definition' := ''CREATE TABLE public.t (a int);'' @ [CHR 0x0A, CHR 0x0A]
                 @ ''CREATE INDEX i1 ON public.t (a);'' @ [CHR 0x0A] @ ''CREATE INDEX i2 ON public.t (a);''\<rparr>],
      residual = []\<rparr>"
    unfolding parse_def classifyAll_indexes
    by (simp add: attachObjectsToTables_def attach_indexes)
  then show ?thesis
    by (simp add: dump_indexes_def table_t_def)
qed

text \<open>
  Claim C6. A dump with the table \<open>b.t\<close> and an identity sequence statement for the column
  \<open>id\<close> of the table \<open>a.t\<close>, which the dump does not create; the sequence is named \<open>b.s\<close>.
  The statement is not dropped: it is grouped under the schema of the sequence and the name
  of the table, \<open>b.t\<close>, and spliced into the column \<open>id\<close> of that table. The index statement
  of the claim, alone in a dump, gives no object and no residual text.
\<close>

theorem sequence_attached_to_table_of_other_schema:
  "parse (''CREATE TABLE b.t (id int);'' @ [CHR 0x0A]
       @ ''ALTER TABLE a.t ALTER id ADD GENERATED ALWAYS AS IDENTITY (SEQUENCE NAME b.s);'')
     = Inr \<lparr>objects = [\<lparr>type = Table, schema = Some ''b'', name = Some ''t'',
            qualifiedName = Some ''b.t'',
            definition' = ''CREATE TABLE b.t (id int GENERATED ALWAYS AS IDENTITY (SEQUENCE NAME b.s));'',
            sequences = Some [''ALTER TABLE a.t ALTER id ADD GENERATED ALWAYS AS IDENTITY (SEQUENCE NAME b.s);''],
            constraints = None, indexes = None\<rparr>],
        residual = []\<rparr>
   \<and> parse ''CREATE INDEX idx_a ON public.t (a);'' = Inr \<lparr>objects = [], residual = []\<rparr>"
proof -
  have 1: "parse (''CREATE TABLE b.t (id int);'' @ [CHR 0x0A]
       @ ''ALTER TABLE a.t ALTER id ADD GENERATED ALWAYS AS IDENTITY (SEQUENCE NAME b.s);'')
     = Inr \<lparr>objects = [table_b_t\<lparr>sequences := Some [''ALTER TABLE a.t ALTER id ADD GENERATED ALWAYS AS IDENTITY (SEQUENCE NAME b.s);''],
              definition' := ''CREATE TABLE b.t (id int GENERATED ALWAYS AS IDENTITY (SEQUENCE NAME b.s));''\<rparr>],
           residual = []\<rparr>"
    unfolding parse_def classifyAll_seq_other_table
    by (simp add: attachObjectsToTables_def attach_seq_other_table)
  have t: "trim ''CREATE INDEX idx_a ON public.t (a);'' = ''CREATE INDEX idx_a ON public.t (a);''"
    by (simp add: isWhiteSpace_Char)
  have c: "classifyAll ''CREATE INDEX idx_a ON public.t (a);''
     = ([], [\<lparr>p_type = Index, p_schema = Some ''public'', p_name = Some ''idx_a'',
         p_qualifiedName = Some ''public.idx_a'',
         p_definition = ''CREATE INDEX idx_a ON public.t (a);'', p_residual = None,
         p_tableSchema = None, p_table = Some ''t'', p_column = None\<rparr>], [])"
    unfolding classifyAll_def split_index
    by (simp add: classifyStatement_def t parse_index del: trim.simps)
  have 2: "parse ''CREATE INDEX idx_a ON public.t (a);'' = Inr \<lparr>objects = [], residual = []\<rparr>"
    unfolding parse_def c by (simp add: attachObjectsToTables_def)
  from 1 2 show ?thesis by (simp add: table_b_t_def)
qed

end
